theory Spec2Isabelle
  imports Main "HOL-Library.Word" "HOL-Library.Sublist"
begin

unbundle bit_operations_syntax

section \<open>Bytes, 32-bit integers and errors\<close>

text \<open>
  The store is the write-ahead-log program of the repository (package main with the types
  WAL and KV). Go's \<open>byte\<close> and \<open>uint32\<close> are machine words; a \<open>[]byte\<close> and a Go
  \<open>string\<close> are both byte sequences, so keys and values are byte lists.
\<close>

type_synonym byte = "8 word"
type_synonym uint32 = "32 word"

text \<open>
  The error values the program can meet: \<open>io.EOF\<close>, \<open>io.ErrUnexpectedEOF\<close>,
  \<open>io.ErrShortWrite\<close>, \<open>os.ErrClosed\<close>, and \<open>EIO\<close> for any failure reported by the
  operating system (open, read, write, fsync, close).
\<close>

datatype error = EOF | ErrUnexpectedEOF | ErrShortWrite | ErrClosed | EIO

section \<open>The library functions the store calls\<close>

subsection \<open>encoding/binary: little-endian 32-bit integers\<close>

text \<open>
  \<open>binary.LittleEndian.PutUint32(b, v)\<close> stores \<open>byte(v)\<close>, \<open>byte(v >> 8)\<close>,
  \<open>byte(v >> 16)\<close>, \<open>byte(v >> 24)\<close>; \<open>Uint32(b)\<close> reads
  \<open>b[0] | b[1] << 8 | b[2] << 16 | b[3] << 24\<close>. The program only passes four-byte
  slices of fixed arrays.
\<close>

definition PutUint32 :: "uint32 \<Rightarrow> byte list" where
  "PutUint32 v = [ucast v, ucast (drop_bit 8 v), ucast (drop_bit 16 v), ucast (drop_bit 24 v)]"

definition Uint32 :: "byte list \<Rightarrow> uint32" where
  "Uint32 b = ucast (b ! 0) OR push_bit 8 (ucast (b ! 1)) OR
              push_bit 16 (ucast (b ! 2)) OR push_bit 24 (ucast (b ! 3))"

subsection \<open>hash/crc32: the IEEE checksum\<close>

text \<open>
  Modelled from the spec: the checksum is the IEEE CRC32 of Go's standard library
  (\<open>crc32.NewIEEE\<close>), which is not part of the repository. The definitions follow the
  library's reference implementation, which every faster variant has to agree with. The
  table entry of byte \<open>i\<close> is \<open>i\<close> after eight shift steps with the reflected polynomial
  \<open>0xedb88320\<close> (\<open>if crc&1 == 1 then (crc >> 1) ^ poly else crc >> 1\<close>). An update
  complements the running value, takes \<open>tab[byte(crc) ^ v] ^ (crc >> 8)\<close> for every byte
  \<open>v\<close>, and complements again. A digest starts at 0, \<open>Write\<close> replaces its value by the
  update over the bytes written, and \<open>Sum32\<close> returns it.
\<close>

definition crc_step :: "uint32 \<Rightarrow> uint32" where
  "crc_step c = (if bit c 0 then drop_bit 1 c XOR 0xedb88320 else drop_bit 1 c)"

definition crc_tab :: "byte \<Rightarrow> uint32" where
  "crc_tab i = (crc_step ^^ 8) (ucast i)"

definition crc_byte :: "uint32 \<Rightarrow> byte \<Rightarrow> uint32" where
  "crc_byte c v = crc_tab (ucast c XOR v) XOR drop_bit 8 c"

definition crc32_Update :: "uint32 \<Rightarrow> byte list \<Rightarrow> uint32" where
  "crc32_Update crc p = NOT (foldl crc_byte (NOT crc) p)"

definition crc32_ChecksumIEEE :: "byte list \<Rightarrow> uint32" where
  "crc32_ChecksumIEEE p = crc32_Update 0 p"

subsection \<open>os.File: one log file, with injected I/O faults\<close>

text \<open>
  The file system holds the one log file. \<open>content\<close> is what has reached the operating
  system, which is what a reader of the file sees. Every system call consumes the next
  entry of \<open>faults\<close>, the schedule of injected failures (an exhausted schedule means no
  failure): \<open>Fault n\<close> makes a write fail after \<open>n\<close> of its bytes got through, and makes
  an open, fsync or close fail. \<open>is_closed\<close> is the state of the append handle.
\<close>

datatype fault = NoFault | Fault nat

record os_file =
  content :: "byte list"
  faults :: "fault list"
  is_closed :: bool

definition next_fault :: "os_file \<Rightarrow> fault \<times> os_file" where
  "next_fault f = (case faults f of [] \<Rightarrow> (NoFault, f) | x # xs \<Rightarrow> (x, f\<lparr>faults := xs\<rparr>))"

text \<open>\<open>os.OpenFile(path, O_CREATE|O_RDWR|O_APPEND, 0o644)\<close>: a fresh append handle.\<close>

definition os_OpenFile :: "os_file \<Rightarrow> error + os_file" where
  "os_OpenFile f =
     (case next_fault f of
        (NoFault, f1) \<Rightarrow> Inr (f1\<lparr>is_closed := False\<rparr>)
      | (Fault n, f1) \<Rightarrow> Inl EIO)"

text \<open>\<open>f.Write(p)\<close> on the append handle: the bytes go to the end of the file.\<close>

definition file_Write :: "byte list \<Rightarrow> os_file \<Rightarrow> (nat \<times> error option) \<times> os_file" where
  "file_Write p f =
     (if is_closed f then ((0, Some ErrClosed), f)
      else case next_fault f of
        (NoFault, f1) \<Rightarrow> ((length p, None), f1\<lparr>content := content f1 @ p\<rparr>)
      | (Fault n, f1) \<Rightarrow> ((min n (length p), Some EIO), f1\<lparr>content := content f1 @ take n p\<rparr>))"

definition file_Sync :: "os_file \<Rightarrow> error option \<times> os_file" where
  "file_Sync f =
     (if is_closed f then (Some ErrClosed, f)
      else case next_fault f of
        (NoFault, f1) \<Rightarrow> (None, f1)
      | (Fault n, f1) \<Rightarrow> (Some EIO, f1))"

definition file_Close :: "os_file \<Rightarrow> error option \<times> os_file" where
  "file_Close f =
     (if is_closed f then (Some ErrClosed, f)
      else case next_fault f of
        (NoFault, f1) \<Rightarrow> (None, f1\<lparr>is_closed := True\<rparr>)
      | (Fault n, f1) \<Rightarrow> (Some EIO, f1\<lparr>is_closed := True\<rparr>))"

subsection \<open>bufio.Writer\<close>

text \<open>
  \<open>buf\<close> is the buffered, not yet written data (\<open>b.buf[0:b.n]\<close>), \<open>err\<close> the sticky
  error of the writer and \<open>wr\<close> the file underneath. The store creates the writer with
  \<open>bufio.NewWriterSize(f, 1<<20)\<close>.
\<close>

record bufio_Writer =
  buf :: "byte list"
  err :: "error option"
  wr :: os_file

definition bufSize :: nat where
  "bufSize = 2 ^ 20"

definition Available :: "bufio_Writer \<Rightarrow> nat" where
  "Available b = bufSize - length (buf b)"

definition NewWriterSize :: "os_file \<Rightarrow> bufio_Writer" where
  "NewWriterSize f = \<lparr>buf = [], err = None, wr = f\<rparr>"

text \<open>
  \<open>Flush\<close>: a sticky error is returned at once; an empty buffer needs no write; a short
  write without an error becomes \<open>ErrShortWrite\<close>; on an error the unwritten rest of the
  buffer is kept and the error sticks.
\<close>

definition Flush :: "bufio_Writer \<Rightarrow> error option \<times> bufio_Writer" where
  "Flush b =
     (if err b \<noteq> None then (err b, b)
      else if buf b = [] then (None, b)
      else case file_Write (buf b) (wr b) of
        ((n, e), f1) \<Rightarrow>
          (let e1 = (if n < length (buf b) \<and> e = None then Some ErrShortWrite else e)
           in if e1 \<noteq> None then (e1, b\<lparr>buf := drop n (buf b), err := e1, wr := f1\<rparr>)
              else (None, b\<lparr>buf := [], wr := f1\<rparr>)))"

text \<open>
  \<open>Write(p)\<close>: while \<open>p\<close> does not fit and no error is set, either write \<open>p\<close> straight to
  the file (empty buffer) or fill the buffer and flush it; then report the sticky error, or
  copy what is left of \<open>p\<close> into the buffer.
\<close>

function bufio_Write :: "byte list \<Rightarrow> bufio_Writer \<Rightarrow> error option \<times> bufio_Writer" where
  "bufio_Write p b =
     (if length p > Available b \<and> err b = None then
        (if buf b = [] then
           (case file_Write p (wr b) of
              ((n, e), f1) \<Rightarrow> bufio_Write (drop n p) (b\<lparr>err := e, wr := f1\<rparr>))
         else
           (let n = Available b
            in bufio_Write (drop n p) (snd (Flush (b\<lparr>buf := buf b @ take n p\<rparr>)))))
      else if err b \<noteq> None then (err b, b)
      else (None, b\<lparr>buf := buf b @ p\<rparr>))"
  by pat_completeness auto

termination bufio_Write
proof (relation "measure (\<lambda>(p, b). if err b \<noteq> None then 0
                            else 2 * length p + (if buf b = [] then 1 else 2))")
qed (auto simp: file_Write_def next_fault_def Available_def Flush_def Let_def
          split: if_splits list.splits fault.splits prod.splits)

subsection \<open>bufio.Reader and io.ReadFull\<close>

text \<open>
  Replay reads the file through a buffered reader with \<open>io.ReadFull\<close> only. \<open>pending\<close>
  is what the handle will still deliver; \<open>final\<close> is what it reports once that is used up:
  \<open>EOF\<close> at the end of the file, or the error of a failing read. \<open>ReadFull\<close> returns the
  \<open>n\<close> bytes asked for, or the final condition when nothing could be read, or, when it got
  fewer than \<open>n\<close>, \<open>ErrUnexpectedEOF\<close> in place of \<open>EOF\<close>.
\<close>

record reader =
  pending :: "byte list"
  final :: error

definition ReadFull :: "reader \<Rightarrow> nat \<Rightarrow> (error + byte list) \<times> reader" where
  "ReadFull br n =
     (if n \<le> length (pending br) then (Inr (take n (pending br)), br\<lparr>pending := drop n (pending br)\<rparr>)
      else if pending br = [] then (Inl (final br), br)
      else (Inl (if final br = EOF then ErrUnexpectedEOF else final br), br\<lparr>pending := []\<rparr>))"

text \<open>
  \<open>os.Open(name)\<close>: a separate read handle on the log. A fault may make the open fail;
  the next entry of the schedule decides whether the reads of this handle end at the end of
  the file or break off with an error after \<open>n\<close> bytes.
\<close>

definition os_Open :: "os_file \<Rightarrow> (error + reader) \<times> os_file" where
  "os_Open f =
     (case next_fault f of
        (Fault n, f1) \<Rightarrow> (Inl EIO, f1)
      | (NoFault, f1) \<Rightarrow>
          (case next_fault f1 of
             (NoFault, f2) \<Rightarrow> (Inr \<lparr>pending = content f, final = EOF\<rparr>, f2)
           | (Fault n, f2) \<Rightarrow> (Inr \<lparr>pending = take n (content f), final = EIO\<rparr>, f2)))"

section \<open>The write-ahead log\<close>

definition opSet :: byte where
  "opSet = 1"

definition opDel :: byte where
  "opDel = 2"

text \<open>
  The Go struct has a mutex, the file \<open>f\<close> and the buffered writer \<open>bufw\<close> around \<open>f\<close>;
  the file is kept once, underneath the writer.
\<close>

record WAL =
  bufw :: bufio_Writer

definition wal_f :: "WAL \<Rightarrow> os_file" where
  "wal_f w = wr (bufw w)"

definition OpenWAL :: "os_file \<Rightarrow> error + WAL" where
  "OpenWAL path =
     (case os_OpenFile path of
        Inl e \<Rightarrow> Inl e
      | Inr f \<Rightarrow> Inr \<lparr>bufw = NewWriterSize f\<rparr>)"

definition WAL_Close :: "WAL \<Rightarrow> error option \<times> WAL" where
  "WAL_Close w =
     (case Flush (bufw w) of
        (Some e, b1) \<Rightarrow> (Some e, w\<lparr>bufw := b1\<lparr>wr := snd (file_Close (wr b1))\<rparr>\<rparr>)
      | (None, b1) \<Rightarrow>
          (case file_Close (wr b1) of (e, f1) \<Rightarrow> (e, w\<lparr>bufw := b1\<lparr>wr := f1\<rparr>\<rparr>)))"

text \<open>
  The nine header bytes and the checksum, which \<open>appendRecord\<close> and \<open>Replay\<close> compute
  with the same statements: the digest is fed the header, the key, and the value when it
  is not empty.
\<close>

definition record_header :: "byte \<Rightarrow> uint32 \<Rightarrow> uint32 \<Rightarrow> byte list" where
  "record_header op keyLen valLen = op # PutUint32 keyLen @ PutUint32 valLen"

definition record_sum :: "byte list \<Rightarrow> byte list \<Rightarrow> byte list \<Rightarrow> uint32" where
  "record_sum header key val =
     (let h1 = crc32_Update 0 header;
          h2 = crc32_Update h1 key;
          h3 = (if length val > 0 then crc32_Update h2 val else h2)
      in h3)"

definition appendRecord :: "byte \<Rightarrow> byte list \<Rightarrow> byte list \<Rightarrow> WAL \<Rightarrow> error option \<times> WAL" where
  "appendRecord op key val w =
     (let header = record_header op (of_nat (length key)) (of_nat (length val));
          sum = record_sum header key val
      in case bufio_Write header (bufw w) of
           (Some e, b1) \<Rightarrow> (Some e, w\<lparr>bufw := b1\<rparr>)
         | (None, b1) \<Rightarrow>
       (case bufio_Write key b1 of
           (Some e, b2) \<Rightarrow> (Some e, w\<lparr>bufw := b2\<rparr>)
         | (None, b2) \<Rightarrow>
       (case (if length val > 0 then bufio_Write val b2 else (None, b2)) of
           (Some e, b3) \<Rightarrow> (Some e, w\<lparr>bufw := b3\<rparr>)
         | (None, b3) \<Rightarrow>
       (case bufio_Write (PutUint32 sum) b3 of
           (Some e, b4) \<Rightarrow> (Some e, w\<lparr>bufw := b4\<rparr>)
         | (None, b4) \<Rightarrow>
       (case Flush b4 of (e, b5) \<Rightarrow> (e, w\<lparr>bufw := b5\<rparr>))))))"

definition AppendSET :: "byte list \<Rightarrow> byte list \<Rightarrow> WAL \<Rightarrow> error option \<times> WAL" where
  "AppendSET key val w = appendRecord opSet key val w"

definition AppendDEL :: "byte list \<Rightarrow> WAL \<Rightarrow> error option \<times> WAL" where
  "AppendDEL key w = appendRecord opDel key [] w"

definition WAL_Sync :: "WAL \<Rightarrow> error option \<times> WAL" where
  "WAL_Sync w =
     (case Flush (bufw w) of
        (Some e, b1) \<Rightarrow> (Some e, w\<lparr>bufw := b1\<rparr>)
      | (None, b1) \<Rightarrow>
          (case file_Sync (wr b1) of (e, f1) \<Rightarrow> (e, w\<lparr>bufw := b1\<lparr>wr := f1\<rparr>\<rparr>)))"

subsection \<open>Replay\<close>

text \<open>
  One turn of the loop of \<open>Replay\<close> up to the call of \<open>apply\<close>: either a record, or the
  loop's \<open>return\<close> with its error (\<open>None\<close> is Go's \<open>nil\<close>). The reader is returned as
  the turn left it.
\<close>

datatype decoded = Rec byte "byte list" "byte list" | Stop "error option"

definition maxKey :: uint32 where
  "maxKey = 2 ^ 20"

definition maxVal :: uint32 where
  "maxVal = 64 * 2 ^ 20"

definition read_record :: "reader \<Rightarrow> decoded \<times> reader" where
  "read_record br =
     (case ReadFull br 9 of
        (Inl e, br1) \<Rightarrow>
          (if e = EOF \<or> e = ErrUnexpectedEOF then (Stop None, br1) else (Stop (Some e), br1))
      | (Inr header, br1) \<Rightarrow>
          (let op = header ! 0;
               keyLen = Uint32 (take 4 (drop 1 header));
               valLen = Uint32 (take 4 (drop 5 header))
           in if keyLen = 0 \<or> keyLen > maxKey \<or> valLen > maxVal then (Stop None, br1)
              else
        (case ReadFull br1 (unat keyLen) of
           (Inl e, br2) \<Rightarrow> (Stop None, br2)
         | (Inr key, br2) \<Rightarrow>
        (case (if valLen > 0 then ReadFull br2 (unat valLen) else (Inr [], br2)) of
           (Inl e, br3) \<Rightarrow> (Stop None, br3)
         | (Inr val, br3) \<Rightarrow>
        (case ReadFull br3 4 of
           (Inl e, br4) \<Rightarrow> (Stop None, br4)
         | (Inr crcBuf, br4) \<Rightarrow>
             (let wantCRC = Uint32 crcBuf;
                  gotCRC = record_sum header key val
              in if gotCRC \<noteq> wantCRC then (Stop None, br4)
                 else (Rec op key val, br4)))))))"

function Replay_loop ::
  "reader \<Rightarrow> (byte \<Rightarrow> byte list \<Rightarrow> byte list \<Rightarrow> 's \<Rightarrow> 's) \<Rightarrow> 's \<Rightarrow> error option \<times> 's" where
  "Replay_loop br apply s =
     (case read_record br of
        (Stop e, br1) \<Rightarrow> (e, s)
      | (Rec op key val, br1) \<Rightarrow> Replay_loop br1 apply (apply op key val s))"
  by pat_completeness auto

termination Replay_loop
proof (relation "measure (\<lambda>(br, apply, s). length (pending br))")
qed (auto simp: read_record_def ReadFull_def Let_def split: if_splits prod.splits sum.splits)

text \<open>
  \<open>Replay\<close> opens its own read handle on the log and runs the loop; the state \<open>s\<close> is what
  the callback \<open>apply\<close> mutates.
\<close>

definition WAL_Replay ::
  "WAL \<Rightarrow> (byte \<Rightarrow> byte list \<Rightarrow> byte list \<Rightarrow> 's \<Rightarrow> 's) \<Rightarrow> 's \<Rightarrow> (error option \<times> 's) \<times> WAL" where
  "WAL_Replay w apply s =
     (case os_Open (wr (bufw w)) of
        (Inl e, f1) \<Rightarrow> ((Some e, s), w\<lparr>bufw := (bufw w)\<lparr>wr := f1\<rparr>\<rparr>)
      | (Inr br, f1) \<Rightarrow> (Replay_loop br apply s, w\<lparr>bufw := (bufw w)\<lparr>wr := f1\<rparr>\<rparr>))"

section \<open>The key-value store\<close>

record KV =
  mem :: "byte list \<rightharpoonup> byte list"
  wal :: WAL
  fsyncEvery :: int

text \<open>The callback that \<open>OpenKV\<close> hands to \<open>Replay\<close>: a switch on the op byte.\<close>

definition kv_apply ::
  "byte \<Rightarrow> byte list \<Rightarrow> byte list \<Rightarrow> (byte list \<rightharpoonup> byte list) \<Rightarrow> (byte list \<rightharpoonup> byte list)" where
  "kv_apply op key val m =
     (if op = opSet then m(key \<mapsto> val)
      else if op = opDel then m(key := None)
      else m)"

definition OpenKV :: "os_file \<Rightarrow> int \<Rightarrow> error + KV" where
  "OpenKV path n =
     (case OpenWAL path of
        Inl e \<Rightarrow> Inl e
      | Inr w \<Rightarrow>
          (case WAL_Replay w kv_apply Map.empty of
             ((Some e, m), w1) \<Rightarrow> Inl e
           | ((None, m), w1) \<Rightarrow> Inr \<lparr>mem = m, wal = w1, fsyncEvery = n\<rparr>))"

definition KV_Close :: "KV \<Rightarrow> error option \<times> KV" where
  "KV_Close kv = (case WAL_Close (wal kv) of (e, w1) \<Rightarrow> (e, kv\<lparr>wal := w1\<rparr>))"

definition KV_Get :: "KV \<Rightarrow> byte list \<Rightarrow> byte list \<times> bool" where
  "KV_Get kv key = (case mem kv key of None \<Rightarrow> ([], False) | Some v \<Rightarrow> (v, True))"

definition KV_Set :: "byte list \<Rightarrow> byte list \<Rightarrow> KV \<Rightarrow> error option \<times> KV" where
  "KV_Set key val kv =
     (case AppendSET key val (wal kv) of
        (Some e, w1) \<Rightarrow> (Some e, kv\<lparr>wal := w1\<rparr>)
      | (None, w1) \<Rightarrow>
          (case (if fsyncEvery kv = 1 then WAL_Sync w1 else (None, w1)) of
             (Some e, w2) \<Rightarrow> (Some e, kv\<lparr>wal := w2\<rparr>)
           | (None, w2) \<Rightarrow> (None, kv\<lparr>wal := w2, mem := (mem kv)(key \<mapsto> val)\<rparr>)))"

definition KV_Del :: "byte list \<Rightarrow> KV \<Rightarrow> error option \<times> KV" where
  "KV_Del key kv =
     (case AppendDEL key (wal kv) of
        (Some e, w1) \<Rightarrow> (Some e, kv\<lparr>wal := w1\<rparr>)
      | (None, w1) \<Rightarrow>
          (case (if fsyncEvery kv = 1 then WAL_Sync w1 else (None, w1)) of
             (Some e, w2) \<Rightarrow> (Some e, kv\<lparr>wal := w2\<rparr>)
           | (None, w2) \<Rightarrow> (None, kv\<lparr>wal := w2, mem := (mem kv)(key := None)\<rparr>)))"

text \<open>The file as the store leaves it, which is what a later \<open>OpenKV\<close> finds.\<close>

definition kv_file :: "KV \<Rightarrow> os_file" where
  "kv_file kv = wr (bufw (wal kv))"

section \<open>What the specification talks about\<close>

text \<open>
  The definitions of this section follow the words of the specification, not the code: the
  record layout of its table of the on-disk format, a log as a sequence of records, the
  table as the result of applying operations to an empty map, a sequence of calls on the
  store, closing and reopening, and a single flipped bit.
\<close>

text \<open>The four little-endian bytes of a number, by division and remainder.\<close>

definition le32 :: "nat \<Rightarrow> byte list" where
  "le32 n = [of_nat (n mod 256), of_nat (n div 256 mod 256),
             of_nat (n div 65536 mod 256), of_nat (n div 16777216 mod 256)]"

text \<open>
  op, keyLen, valLen, key, value, crc32 over \<open>op \<parallel> keyLen \<parallel> valLen \<parallel> key \<parallel> value\<close>.
\<close>

definition spec_record :: "byte \<Rightarrow> byte list \<Rightarrow> byte list \<Rightarrow> byte list" where
  "spec_record op key val =
     (let body = [op] @ le32 (length key) @ le32 (length val) @ key @ val
      in body @ le32 (unat (crc32_ChecksumIEEE body)))"

text \<open>A record within the size bounds of the data model: key 1..2^20 bytes, value 0..64*2^20.\<close>

definition in_bounds :: "byte list \<Rightarrow> byte list \<Rightarrow> bool" where
  "in_bounds key val = (1 \<le> length key \<and> length key \<le> 2 ^ 20 \<and> length val \<le> 64 * 2 ^ 20)"

type_synonym log_record = "byte \<times> byte list \<times> byte list"

definition rec_ok :: "log_record \<Rightarrow> bool" where
  "rec_ok r = (case r of (op, key, val) \<Rightarrow> in_bounds key val)"

definition rec_bytes :: "log_record \<Rightarrow> byte list" where
  "rec_bytes r = (case r of (op, key, val) \<Rightarrow> spec_record op key val)"

definition log_bytes :: "log_record list \<Rightarrow> byte list" where
  "log_bytes rs = concat (map rec_bytes rs)"

definition apply_all ::
  "(byte \<Rightarrow> byte list \<Rightarrow> byte list \<Rightarrow> 's \<Rightarrow> 's) \<Rightarrow> log_record list \<Rightarrow> 's \<Rightarrow> 's" where
  "apply_all apply rs s = foldl (\<lambda>s r. case r of (op, key, val) \<Rightarrow> apply op key val s) s rs"

text \<open>The calls an application makes, and the map they describe.\<close>

datatype call = SetCall "byte list" "byte list" | DelCall "byte list"

fun call_key :: "call \<Rightarrow> byte list" where
  "call_key (SetCall k v) = k"
| "call_key (DelCall k) = k"

fun call_val :: "call \<Rightarrow> byte list" where
  "call_val (SetCall k v) = v"
| "call_val (DelCall k) = []"

fun map_call :: "(byte list \<rightharpoonup> byte list) \<Rightarrow> call \<Rightarrow> (byte list \<rightharpoonup> byte list)" where
  "map_call m (SetCall k v) = m(k \<mapsto> v)"
| "map_call m (DelCall k) = m(k := None)"

definition map_of_calls :: "call list \<Rightarrow> (byte list \<rightharpoonup> byte list)" where
  "map_of_calls cs = foldl map_call Map.empty cs"

text \<open>The record a call logs.\<close>

fun call_rec :: "call \<Rightarrow> log_record" where
  "call_rec (SetCall k v) = (opSet, k, v)"
| "call_rec (DelCall k) = (opDel, k, [])"

fun do_call :: "call \<Rightarrow> KV \<Rightarrow> error option \<times> KV" where
  "do_call (SetCall k v) kv = KV_Set k v kv"
| "do_call (DelCall k) kv = KV_Del k kv"

text \<open>Running the calls in order on the store; the first error ends the run.\<close>

fun do_calls :: "call list \<Rightarrow> KV \<Rightarrow> error option \<times> KV" where
  "do_calls [] kv = (None, kv)"
| "do_calls (c # cs) kv =
     (case do_call c kv of
        (Some e, kv1) \<Rightarrow> (Some e, kv1)
      | (None, kv1) \<Rightarrow> do_calls cs kv1)"

text \<open>Closing the store and opening it again on the file it leaves.\<close>

definition reopen :: "KV \<Rightarrow> int \<Rightarrow> error + KV" where
  "reopen kv n = (case KV_Close kv of (e, kv1) \<Rightarrow> OpenKV (kv_file kv1) n)"

text \<open>
  The store as \<open>OpenKV\<close> returns it on an empty log, with the fault schedule that is
  still ahead and the fsync policy.
\<close>

definition empty_store :: "fault list \<Rightarrow> int \<Rightarrow> KV" where
  "empty_store fs n = \<lparr>mem = Map.empty, wal = \<lparr>bufw = \<lparr>buf = [], err = None,
      wr = \<lparr>content = [], faults = fs, is_closed = False\<rparr>\<rparr>\<rparr>, fsyncEvery = n\<rparr>"


text \<open>A store that has just been opened on an empty log.\<close>

definition fresh :: "KV \<Rightarrow> bool" where
  "fresh kv = (mem kv = Map.empty \<and> content (kv_file kv) = [] \<and> \<not> is_closed (kv_file kv) \<and>
               buf (bufw (wal kv)) = [] \<and> err (bufw (wal kv)) = None)"

text \<open>No injected failure is left in the schedule.\<close>

definition fault_free :: "os_file \<Rightarrow> bool" where
  "fault_free f = (list_all (\<lambda>x. x = NoFault) (faults f))"

text \<open>Bit \<open>j\<close> of byte \<open>i\<close> of a byte sequence flipped.\<close>

definition flip_at :: "nat \<Rightarrow> nat \<Rightarrow> byte list \<Rightarrow> byte list" where
  "flip_at i j bs = bs[i := flip_bit j (bs ! i)]"

section \<open>Facts about the library functions\<close>

declare bufio_Write.simps [simp del]

declare Replay_loop.simps [simp del]

subsection \<open>Little-endian integers\<close>

lemma length_PutUint32 [simp]: "length (PutUint32 v) = 4"
  by (simp add: PutUint32_def)

lemma Uint32_PutUint32 [simp]: "Uint32 (PutUint32 v) = v"
  unfolding Uint32_def PutUint32_def
proof (rule bit_eqI)
  fix n :: nat
  assume "possible_bit TYPE(32 word) n"
  then have n: "n < 32" by simp
  consider "n < 8" | "8 \<le> n" "n < 16" | "16 \<le> n" "n < 24" | "24 \<le> n" "n < 32"
    using n by linarith
  then show "bit (ucast ([ucast v, ucast (drop_bit 8 v), ucast (drop_bit 16 v), ucast (drop_bit 24 v)] ! 0 :: byte) OR
        push_bit 8 (ucast ([ucast v, ucast (drop_bit 8 v), ucast (drop_bit 16 v), ucast (drop_bit 24 v)] ! 1 :: byte)) OR
        push_bit 16 (ucast ([ucast v, ucast (drop_bit 8 v), ucast (drop_bit 16 v), ucast (drop_bit 24 v)] ! 2 :: byte)) OR
        push_bit 24 (ucast ([ucast v, ucast (drop_bit 8 v), ucast (drop_bit 16 v), ucast (drop_bit 24 v)] ! 3 :: byte)) :: uint32) n = bit v n"
    by cases (auto simp add: bit_simps)
qed

lemma byte_mod: "(n::nat) mod 256 = take_bit 8 n"
  by (simp add: take_bit_eq_mod)

lemma byte_div:
  "(n::nat) div 256 = drop_bit 8 n"
  "(n::nat) div 65536 = drop_bit 16 n"
  "(n::nat) div 16777216 = drop_bit 24 n"
  by (simp_all add: drop_bit_eq_div)

lemma PutUint32_of_nat: "PutUint32 (of_nat n) = le32 n"
  unfolding PutUint32_def le32_def byte_mod byte_div
  apply simp
  apply (intro conjI; rule bit_eqI)
     apply (auto simp add: bit_simps)
  done

lemma le32_unat: "le32 (unat w) = PutUint32 w"
  using PutUint32_of_nat [of "unat w"] by simp

subsection \<open>The checksum\<close>

lemma funpow8: "(f ^^ 8) x = f (f (f (f (f (f (f (f x)))))))"
  by (simp add: eval_nat_numeral)

lemma crc32_Update_append: "crc32_Update (crc32_Update c xs) ys = crc32_Update c (xs @ ys)"
  by (simp add: crc32_Update_def)

lemma record_sum_eq: "record_sum header key val = crc32_ChecksumIEEE (header @ key @ val)"
  by (cases val) (simp_all add: record_sum_def crc32_ChecksumIEEE_def crc32_Update_append Let_def)

text \<open>
  The table-driven update of a byte is the bit-serial one: the byte is xor-ed into the low
  bits of the register, which then takes eight shift steps.
\<close>

lemma crc_step_xor: "crc_step (a XOR b) = crc_step a XOR crc_step b"
  by (simp add: crc_step_def bit_simps ac_simps)

lemma crc_steps_xor: "(crc_step ^^ k) (a XOR b) = (crc_step ^^ k) a XOR (crc_step ^^ k) b"
  by (induction k) (simp_all add: crc_step_xor)

lemma crc_steps_low_zero: "take_bit k y = 0 \<Longrightarrow> (crc_step ^^ k) y = drop_bit k y"
proof (induction k arbitrary: y)
  case 0
  then show ?case by simp
next
  case (Suc k)
  from Suc.prems have b0: "\<not> bit y 0"
    by (metis bit_0_eq bit_take_bit_iff zero_less_Suc bit_0 even_zero)
  have "take_bit k (drop_bit 1 y) = 0"
  proof (rule bit_eqI)
    fix n
    have "bit (take_bit (Suc k) y) (Suc n) = False" using Suc.prems by simp
    then show "bit (take_bit k (drop_bit 1 y)) n = bit (0 :: uint32) n"
      by (simp add: bit_simps)
  qed
  from Suc.IH [OF this] have "(crc_step ^^ k) (drop_bit 1 y) = drop_bit (Suc k) y"
    by (simp add: drop_bit_drop_bit)
  moreover have "crc_step y = drop_bit 1 y" using b0 by (simp add: crc_step_def)
  ultimately show ?case by (simp add: funpow_swap1)
qed

lemma crc_byte_serial: "crc_byte c v = (crc_step ^^ 8) (c XOR ucast v)"
proof -
  define x where "x = c XOR ucast v"
  define y where "y = x XOR take_bit 8 x"
  have ty: "take_bit 8 y = 0"
    by (rule bit_eqI) (simp add: y_def bit_simps)
  have dy: "drop_bit 8 y = drop_bit 8 c"
    by (rule bit_eqI) (auto simp add: y_def x_def bit_simps dest: bit_imp_le_length)
  have lo: "(ucast (ucast c XOR v :: byte) :: uint32) = take_bit 8 x"
    by (rule bit_eqI) (auto simp add: x_def bit_simps dest: bit_imp_le_length)
  have "x = take_bit 8 x XOR y"
    by (rule bit_eqI) (auto simp add: y_def bit_simps)
  then have "(crc_step ^^ 8) x = (crc_step ^^ 8) (take_bit 8 x) XOR (crc_step ^^ 8) y"
    using crc_steps_xor [of 8 "take_bit 8 x" y] by simp
  also have "\<dots> = (crc_step ^^ 8) (take_bit 8 x) XOR drop_bit 8 c"
    using crc_steps_low_zero [OF ty] dy by simp
  finally show ?thesis
    by (simp add: crc_byte_def crc_tab_def lo x_def)
qed

text \<open>The library's check value: the checksum of the ASCII digits 1 to 9.\<close>

lemma crc32_check_value:
  "crc32_ChecksumIEEE [0x31, 0x32, 0x33, 0x34, 0x35, 0x36, 0x37, 0x38, 0x39] = 0xCBF43926"
  by (simp add: crc32_ChecksumIEEE_def crc32_Update_def crc_byte_serial crc_step_def funpow8)

text \<open>
  A shift step can be undone (the polynomial has its top bit set), so the register after a
  byte determines the register before it, and two messages that differ in one byte only
  have different checksums.
\<close>

lemma crc_step_top: "bit (crc_step c) 31 = bit c 0"
  by (auto simp add: crc_step_def bit_simps dest: bit_imp_le_length)

lemma crc_step_low: "drop_bit 1 c = (if bit c 0 then crc_step c XOR 0xedb88320 else crc_step c)"
  by (simp add: crc_step_def bit_simps xor.assoc)

lemma crc_step_inj: 
  assumes eq: "crc_step a = crc_step b" shows "a = b"
proof (rule bit_eqI)
  fix n
  from eq have b0: "bit a 0 = bit b 0"
    using crc_step_top[of a] crc_step_top[of b] by simp
  with eq have d: "drop_bit 1 a = drop_bit 1 b"
    using crc_step_low[of a] crc_step_low[of b] by simp
  show "bit a n = bit b n"
  proof (cases n)
    case 0
    then show ?thesis using b0 by simp
  next
    case (Suc m)
    have "bit a (Suc m) = bit (drop_bit 1 a) m" "bit b (Suc m) = bit (drop_bit 1 b) m"
      by (simp_all add: bit_simps)
    then show ?thesis using d Suc by simp
  qed
qed

lemma crc_step8_inj: "(crc_step ^^ k) a = (crc_step ^^ k) b \<Longrightarrow> a = b"
  by (induction k) (auto dest: crc_step_inj)

lemma xor_cancel_right: "a XOR x = b XOR x \<Longrightarrow> a = (b::uint32)"
proof -
  assume "a XOR x = b XOR x"
  then have "(a XOR x) XOR x = (b XOR x) XOR x" by simp
  then show ?thesis by (simp add: xor.assoc)
qed

lemma crc_byte_inj_state: "crc_byte a v = crc_byte b v \<Longrightarrow> a = b"
  by (auto simp: crc_byte_serial dest!: crc_step8_inj xor_cancel_right)

lemma ucast_byte_inj: "(ucast (v::byte) :: uint32) = ucast w \<Longrightarrow> v = w"
proof -
  assume "(ucast v :: uint32) = ucast w"
  then have "(ucast (ucast v :: uint32) :: byte) = ucast (ucast w :: uint32)" by simp
  then show ?thesis by (simp add: ucast_down_ucast_id is_down)
qed

lemma crc_byte_inj_byte: "crc_byte c v = crc_byte c w \<Longrightarrow> v = w"
proof -
  assume "crc_byte c v = crc_byte c w"
  then have "c XOR ucast v = c XOR ucast w"
    by (auto simp: crc_byte_serial dest!: crc_step8_inj)
  then have "ucast v XOR c = ucast w XOR c" by (simp add: xor.commute)
  then show ?thesis by (auto dest!: xor_cancel_right ucast_byte_inj)
qed

lemma foldl_crc_inj: "foldl crc_byte a p = foldl crc_byte b p \<Longrightarrow> a = b"
  by (induction p arbitrary: a b) (auto dest: crc_byte_inj_state)

lemma crc32_Update_byte_change:
  assumes "i < length p" "v \<noteq> p ! i"
  shows "crc32_Update c (p[i := v]) \<noteq> crc32_Update c p"
proof -
  have p: "p = take i p @ p ! i # drop (Suc i) p"
    using assms(1) by (simp add: id_take_nth_drop)
  have u: "p[i := v] = take i p @ v # drop (Suc i) p"
    using assms(1) by (simp add: upd_conv_take_nth_drop)
  show ?thesis
  proof
    assume "crc32_Update c (p[i := v]) = crc32_Update c p"
    then have "foldl crc_byte (NOT c) (take i p @ v # drop (Suc i) p) = foldl crc_byte (NOT c) (take i p @ p ! i # drop (Suc i) p)"
      unfolding crc32_Update_def using p u by simp
    then have "crc_byte (foldl crc_byte (NOT c) (take i p)) v = crc_byte (foldl crc_byte (NOT c) (take i p)) (p ! i)"
      by (auto dest: foldl_crc_inj)
    then show False using assms(2) by (auto dest: crc_byte_inj_byte)
  qed
qed

lemma flip_bit_neq: "j < 8 \<Longrightarrow> flip_bit j (b::byte) \<noteq> b"
  by (simp add: flip_bit_eq_idem_iff)

subsection \<open>The buffered writer\<close>

lemma Flush_err: "err (snd (Flush b)) = fst (Flush b)"
  by (auto simp: Flush_def Let_def split: prod.splits if_splits)

lemma bufio_Write_err: "err (snd (bufio_Write p b)) = fst (bufio_Write p b)"
proof (induction p b rule: bufio_Write.induct)
  case (1 p b)
  show ?case
    apply (subst (1 2) bufio_Write.simps)
    using 1 by (auto simp: Let_def split: prod.splits)
qed


lemma Flush_None:
  "Flush b = (None, b') \<Longrightarrow>
     content (wr b') = content (wr b) @ buf b \<and> buf b' = [] \<and> err b' = None \<and> err b = None \<and>
     is_closed (wr b') = is_closed (wr b)"
  by (auto simp: Flush_def Let_def file_Write_def next_fault_def split: prod.splits if_splits list.splits fault.splits)

lemma bufio_Write_None:
  "bufio_Write p b = (None, b') \<Longrightarrow>
     content (wr b') @ buf b' = content (wr b) @ buf b @ p \<and> err b' = None \<and> err b = None \<and>
     is_closed (wr b') = is_closed (wr b)"
proof (induction p b arbitrary: b' rule: bufio_Write.induct)
  case (1 p b)
  show ?case
  proof (cases "length p > Available b \<and> err b = None")
    case False
    then show ?thesis using "1.prems" by (subst (asm) bufio_Write.simps) (auto split: if_splits)
  next
    case True
    show ?thesis
    proof (cases "buf b = []")
      case e: True
      obtain n e1 f1 where fw: "file_Write p (wr b) = ((n, e1), f1)"
        by (metis prod.exhaust)
      from "1.prems" True e fw have r: "bufio_Write (drop n p) (b\<lparr>err := e1, wr := f1\<rparr>) = (None, b')"
        by (subst (asm) bufio_Write.simps) simp
      from "1.IH"(1)[OF True e fw[symmetric] refl r] have ih:
        "content (wr b') @ buf b' = content f1 @ buf b @ drop n p" "err b' = None" "e1 = None"
        "is_closed (wr b') = is_closed f1" by simp_all
      from fw ih(3) have "n = length p" "content f1 = content (wr b) @ p" "is_closed f1 = is_closed (wr b)"
        by (auto simp: file_Write_def next_fault_def split: if_splits list.splits fault.splits)
      then show ?thesis using ih e True by simp
    next
      case ne: False
      define b1 where "b1 = snd (Flush (b\<lparr>buf := buf b @ take (Available b) p\<rparr>))"
      from "1.prems" True ne have r: "bufio_Write (drop (Available b) p) b1 = (None, b')"
        by (subst (asm) bufio_Write.simps) (simp add: b1_def Let_def)
      from "1.IH"(2)[OF True ne refl r[unfolded b1_def]] have ih:
        "content (wr b') @ buf b' = content (wr b1) @ buf b1 @ drop (Available b) p" "err b' = None" "err b1 = None"
        "is_closed (wr b') = is_closed (wr b1)" by (simp_all add: b1_def)
      from ih(3) have "Flush (b\<lparr>buf := buf b @ take (Available b) p\<rparr>) = (None, b1)"
        using Flush_err[of "b\<lparr>buf := buf b @ take (Available b) p\<rparr>"] by (simp add: b1_def prod_eq_iff)
      from Flush_None[OF this] show ?thesis using ih by simp
    qed
  qed
qed

lemma file_Write_fault_free:
  "fault_free f \<Longrightarrow> \<not> is_closed f \<Longrightarrow>
     fst (file_Write p f) = (length p, None) \<and> fault_free (snd (file_Write p f))"
  by (auto simp: file_Write_def fault_free_def next_fault_def split: list.splits fault.splits)

lemma Flush_fault_free:
  "fault_free (wr b) \<Longrightarrow> \<not> is_closed (wr b) \<Longrightarrow> err b = None \<Longrightarrow>
     fst (Flush b) = None \<and> fault_free (wr (snd (Flush b)))"
  using file_Write_fault_free [of "wr b" "buf b"]
  by (auto simp: Flush_def Let_def split: prod.splits)

lemma bufio_Write_fault_free:
  "fault_free (wr b) \<Longrightarrow> \<not> is_closed (wr b) \<Longrightarrow> err b = None \<Longrightarrow>
     fst (bufio_Write p b) = None \<and> fault_free (wr (snd (bufio_Write p b)))"
proof (induction p b rule: bufio_Write.induct)
  case (1 p b)
  show ?case
  proof (cases "length p > Available b \<and> err b = None")
    case False
    then show ?thesis using "1.prems" by (subst (1 2) bufio_Write.simps) auto
  next
    case True
    show ?thesis
    proof (cases "buf b = []")
      case e: True
      obtain n e1 f1 where fw: "file_Write p (wr b) = ((n, e1), f1)"
        by (metis prod.exhaust)
      with file_Write_fault_free [OF "1.prems"(1,2), of p]
      have f1: "e1 = None" "fault_free f1" by simp_all
      have c1: "is_closed f1 = is_closed (wr b)"
        using fw by (auto simp: file_Write_def next_fault_def split: if_splits list.splits fault.splits)
      have eq: "bufio_Write p b = bufio_Write (drop n p) (b\<lparr>err := e1, wr := f1\<rparr>)"
        using True e fw by (subst bufio_Write.simps) simp
      show ?thesis
        unfolding eq using "1.IH"(1)[OF True e fw[symmetric] refl] f1 c1 "1.prems" by simp
    next
      case ne: False
      define b0 where "b0 = b\<lparr>buf := buf b @ take (Available b) p\<rparr>"
      define b1 where "b1 = snd (Flush b0)"
      have eq: "bufio_Write p b = bufio_Write (drop (Available b) p) b1"
        using True ne by (subst bufio_Write.simps) (simp add: b1_def b0_def Let_def)
      have fl: "fst (Flush b0) = None" "fault_free (wr b1)"
        using Flush_fault_free [of b0] "1.prems" by (simp_all add: b0_def b1_def)
      then have "Flush b0 = (None, b1)" by (simp add: b1_def prod_eq_iff)
      from Flush_None [OF this] have "err b1 = None" "\<not> is_closed (wr b1)"
        using "1.prems" by (simp_all add: b0_def)
      with "1.IH"(2)[OF True ne refl] fl show ?thesis
        unfolding eq by (simp add: b1_def b0_def)
    qed
  qed
qed

section \<open>Facts about the write-ahead log\<close>

subsection \<open>Appending a record\<close>

lemma length_record_header [simp]: "length (record_header op k v) = 9"
  by (simp add: record_header_def)

lemma spec_record_eq:
  "spec_record op key val =
     record_header op (of_nat (length key)) (of_nat (length val)) @ key @ val @
     PutUint32 (record_sum (record_header op (of_nat (length key)) (of_nat (length val))) key val)"
  by (simp add: spec_record_def record_header_def record_sum_eq PutUint32_of_nat le32_unat Let_def)

lemma appendRecord_None:
  assumes "appendRecord op key val w = (None, w')" and "buf (bufw w) = []"
  shows "content (wal_f w') = content (wal_f w) @ spec_record op key val \<and>
         buf (bufw w') = [] \<and> err (bufw w') = None \<and> err (bufw w) = None \<and>
         is_closed (wal_f w') = is_closed (wal_f w)"
proof -
  define header where "header = record_header op (of_nat (length key)) (of_nat (length val))"
  define sum where "sum = record_sum header key val"
  obtain e1 b1 where w1: "bufio_Write header (bufw w) = (e1, b1)" by (metis prod.exhaust)
  obtain e2 b2 where w2: "bufio_Write key b1 = (e2, b2)" by (metis prod.exhaust)
  obtain e3 b3 where w3: "(if length val > 0 then bufio_Write val b2 else (None, b2)) = (e3, b3)"
    by (metis prod.exhaust)
  obtain e4 b4 where w4: "bufio_Write (PutUint32 sum) b3 = (e4, b4)" by (metis prod.exhaust)
  obtain e5 b5 where w5: "Flush b4 = (e5, b5)" by (metis prod.exhaust)
  from assms(1) w1 w2 w3 w4 w5
  have n: "e1 = None" "e2 = None" "e3 = None" "e4 = None" "e5 = None" "w' = w\<lparr>bufw := b5\<rparr>"
    unfolding appendRecord_def header_def[symmetric] Let_def sum_def[symmetric]
    by (auto split: option.splits)
  note r1 = bufio_Write_None [OF w1[unfolded n]]
  note r2 = bufio_Write_None [OF w2[unfolded n]]
  have r3: "content (wr b3) @ buf b3 = content (wr b2) @ buf b2 @ val \<and> err b3 = None \<and>
            is_closed (wr b3) = is_closed (wr b2)"
  proof (cases "length val > 0")
    case True
    with w3 n have "bufio_Write val b2 = (None, b3)" by simp
    from bufio_Write_None [OF this] show ?thesis by simp
  next
    case False
    with w3 r2 show ?thesis by simp
  qed
  note r4 = bufio_Write_None [OF w4[unfolded n]]
  note r5 = Flush_None [OF w5[unfolded n]]
  have "content (wr b5) = content (wr (bufw w)) @ header @ key @ val @ PutUint32 sum"
    using r1 r2 r3 r4 r5 assms(2) by simp
  then show ?thesis
    using r1 r2 r3 r4 r5 n
    by (simp add: wal_f_def spec_record_eq header_def sum_def)
qed

lemma appendRecord_fault_free:
  assumes "fault_free (wal_f w)" "\<not> is_closed (wal_f w)" "err (bufw w) = None"
  shows "fst (appendRecord op key val w) = None \<and>
         fault_free (wal_f (snd (appendRecord op key val w))) \<and>
         \<not> is_closed (wal_f (snd (appendRecord op key val w))) \<and>
         err (bufw (snd (appendRecord op key val w))) = None"
proof -
  define header where "header = record_header op (of_nat (length key)) (of_nat (length val))"
  define sum where "sum = record_sum header key val"
  define b1 where "b1 = snd (bufio_Write header (bufw w))"
  define b2 where "b2 = snd (bufio_Write key b1)"
  define b3 where "b3 = (if length val > 0 then snd (bufio_Write val b2) else b2)"
  define b4 where "b4 = snd (bufio_Write (PutUint32 sum) b3)"
  define b5 where "b5 = snd (Flush b4)"
  have ok: "fault_free (wr b) \<Longrightarrow> \<not> is_closed (wr b) \<Longrightarrow> err b = None \<Longrightarrow>
      bufio_Write p b = (None, snd (bufio_Write p b)) \<and> fault_free (wr (snd (bufio_Write p b))) \<and>
      \<not> is_closed (wr (snd (bufio_Write p b))) \<and> err (snd (bufio_Write p b)) = None" for p b
    using bufio_Write_fault_free [of b p] bufio_Write_None [of p b "snd (bufio_Write p b)"]
    by (simp add: prod_eq_iff)
  have s1: "bufio_Write header (bufw w) = (None, b1)" "fault_free (wr b1)" "\<not> is_closed (wr b1)" "err b1 = None"
    using ok [of "bufw w" header] assms by (simp_all add: b1_def wal_f_def)
  have s2: "bufio_Write key b1 = (None, b2)" "fault_free (wr b2)" "\<not> is_closed (wr b2)" "err b2 = None"
    using ok [of b1 key] s1 by (simp_all add: b2_def)
  have s3: "(if length val > 0 then bufio_Write val b2 else (None, b2)) = (None, b3)"
      "fault_free (wr b3)" "\<not> is_closed (wr b3)" "err b3 = None"
    using ok [of b2 val] s2 by (simp_all add: b3_def)
  have s4: "bufio_Write (PutUint32 sum) b3 = (None, b4)" "fault_free (wr b4)" "\<not> is_closed (wr b4)" "err b4 = None"
    using ok [of b3 "PutUint32 sum"] s3 by (simp_all add: b4_def)
  have s5: "Flush b4 = (None, b5)" "fault_free (wr b5)"
    using Flush_fault_free [of b4] s4 by (simp_all add: b5_def prod_eq_iff)
  have "appendRecord op key val w = (None, w\<lparr>bufw := b5\<rparr>)"
    unfolding appendRecord_def header_def[symmetric] Let_def sum_def[symmetric]
    using s1(1) s2(1) s3(1) s4(1) s5(1) by simp
  then show ?thesis using s5 s4 Flush_None [OF s5(1)] by (simp add: wal_f_def)
qed

subsection \<open>Reading records back\<close>

lemma unat_of_nat32: "n < 2 ^ 32 \<Longrightarrow> unat (of_nat n :: uint32) = n"
  by (simp add: unat_of_nat)

lemma in_bounds_words:
  assumes "in_bounds key val"
  shows "unat (of_nat (length key) :: uint32) = length key"
    and "unat (of_nat (length val) :: uint32) = length val"
    and "(of_nat (length key) :: uint32) \<noteq> 0"
    and "\<not> (of_nat (length key) :: uint32) > maxKey"
    and "\<not> (of_nat (length val) :: uint32) > maxVal"
    and "((of_nat (length val) :: uint32) > 0) = (length val > 0)"
proof -
  from assms have k: "1 \<le> length key" "length key < 2 ^ 32" "length key \<le> 2 ^ 20"
    and v: "length val < 2 ^ 32" "length val \<le> 64 * 2 ^ 20"
    by (simp_all add: in_bounds_def)
  show uk: "unat (of_nat (length key) :: uint32) = length key"
    using k by (simp add: unat_of_nat32)
  show uv: "unat (of_nat (length val) :: uint32) = length val"
    using v by (simp add: unat_of_nat32)
  show "(of_nat (length key) :: uint32) \<noteq> 0"
    using uk k by (metis not_one_le_zero unat_0)
  show "\<not> (of_nat (length key) :: uint32) > maxKey"
    using uk k by (simp add: word_less_nat_alt maxKey_def)
  show "\<not> (of_nat (length val) :: uint32) > maxVal"
    using uv v by (simp add: word_less_nat_alt maxVal_def)
  show "((of_nat (length val) :: uint32) > 0) = (length val > 0)"
    using uv by (simp add: word_less_nat_alt)
qed

lemma ReadFull_append:
  "ReadFull \<lparr>pending = xs @ ys, final = e\<rparr> (length xs) = (Inr xs, \<lparr>pending = ys, final = e\<rparr>)"
  by (simp add: ReadFull_def)

lemma header_fields:
  "record_header op k v ! 0 = op"
  "Uint32 (take 4 (drop 1 (record_header op k v))) = k"
  "Uint32 (take 4 (drop 5 (record_header op k v))) = v"
  by (simp_all add: record_header_def)

lemma read_record_header:
  assumes "ReadFull br 9 = (Inr (record_header op k v), br1)"
  shows "read_record br =
     (if k = 0 \<or> k > maxKey \<or> v > maxVal then (Stop None, br1)
      else
        (case ReadFull br1 (unat k) of
           (Inl e, br2) \<Rightarrow> (Stop None, br2)
         | (Inr key, br2) \<Rightarrow>
        (case (if v > 0 then ReadFull br2 (unat v) else (Inr [], br2)) of
           (Inl e, br3) \<Rightarrow> (Stop None, br3)
         | (Inr val, br3) \<Rightarrow>
        (case ReadFull br3 4 of
           (Inl e, br4) \<Rightarrow> (Stop None, br4)
         | (Inr crcBuf, br4) \<Rightarrow>
             (if record_sum (record_header op k v) key val \<noteq> Uint32 crcBuf then (Stop None, br4)
              else (Rec op key val, br4))))))"
  unfolding read_record_def assms
  by (simp only: prod.case sum.case Let_def header_fields)

lemma read_record_spec_record:
  assumes "in_bounds key val"
  shows "read_record \<lparr>pending = spec_record op key val @ rest, final = e\<rparr> =
           (Rec op key val, \<lparr>pending = rest, final = e\<rparr>)"
proof -
  define header where "header = record_header op (of_nat (length key)) (of_nat (length val))"
  define sum where "sum = record_sum header key val"
  note w = in_bounds_words [OF assms]
  have h9: "9 = length header" by (simp add: header_def)
  have c4: "4 = length (PutUint32 sum)" by simp
  have r1: "ReadFull \<lparr>pending = header @ key @ val @ PutUint32 sum @ rest, final = e\<rparr> 9 =
              (Inr header, \<lparr>pending = key @ val @ PutUint32 sum @ rest, final = e\<rparr>)"
    by (subst h9) (rule ReadFull_append)
  have r2: "ReadFull \<lparr>pending = key @ val @ PutUint32 sum @ rest, final = e\<rparr> (length key) =
              (Inr key, \<lparr>pending = val @ PutUint32 sum @ rest, final = e\<rparr>)"
    by (rule ReadFull_append)
  have r3: "ReadFull \<lparr>pending = val @ PutUint32 sum @ rest, final = e\<rparr> (length val) =
              (Inr val, \<lparr>pending = PutUint32 sum @ rest, final = e\<rparr>)"
    by (rule ReadFull_append)
  have r4: "ReadFull \<lparr>pending = PutUint32 sum @ rest, final = e\<rparr> 4 =
              (Inr (PutUint32 sum), \<lparr>pending = rest, final = e\<rparr>)"
    by (subst c4) (rule ReadFull_append)
  have "read_record \<lparr>pending = header @ key @ val @ PutUint32 sum @ rest, final = e\<rparr> =
           (Rec op key val, \<lparr>pending = rest, final = e\<rparr>)"
    using read_record_header [OF r1 [unfolded header_def]] w r2 r3 r4
    by (cases "val = []") (simp_all add: header_def sum_def)
  then show ?thesis
    by (simp add: spec_record_eq header_def sum_def)
qed

lemma Replay_loop_Rec:
  "read_record br = (Rec op key val, br1) \<Longrightarrow>
     Replay_loop br apply s = Replay_loop br1 apply (apply op key val s)"
  by (subst Replay_loop.simps) simp

lemma Replay_loop_Stop:
  "read_record br = (Stop e, br1) \<Longrightarrow> Replay_loop br apply s = (e, s)"
  by (subst Replay_loop.simps) simp

lemma log_bytes_Cons: "log_bytes (r # rs) = rec_bytes r @ log_bytes rs"
  by (simp add: log_bytes_def)

lemma log_bytes_append: "log_bytes (rs @ rs') = log_bytes rs @ log_bytes rs'"
  by (simp add: log_bytes_def)

lemma apply_all_append: "apply_all apply (rs @ rs') s = apply_all apply rs' (apply_all apply rs s)"
  by (simp add: apply_all_def)

lemma Replay_loop_log:
  "list_all rec_ok rs \<Longrightarrow>
     Replay_loop \<lparr>pending = log_bytes rs @ rest, final = e\<rparr> apply s =
     Replay_loop \<lparr>pending = rest, final = e\<rparr> apply (apply_all apply rs s)"
proof (induction rs arbitrary: s)
  case Nil
  then show ?case by (simp add: log_bytes_def apply_all_def)
next
  case (Cons r rs)
  obtain op key val where r: "r = (op, key, val)" by (cases r)
  from Cons.prems have "rec_ok r" and rest: "list_all rec_ok rs"
    by simp_all
  then have b: "in_bounds key val"
    by (simp add: rec_ok_def r)
  have "Replay_loop \<lparr>pending = log_bytes (r # rs) @ rest, final = e\<rparr> apply s =
        Replay_loop \<lparr>pending = log_bytes rs @ rest, final = e\<rparr> apply (apply op key val s)"
    using read_record_spec_record [OF b, of op "log_bytes rs @ rest" e]
    by (simp add: log_bytes_Cons r rec_bytes_def Replay_loop_Rec)
  also have "\<dots> = Replay_loop \<lparr>pending = rest, final = e\<rparr> apply (apply_all apply rs (apply op key val s))"
    by (rule Cons.IH [OF rest])
  finally show ?case by (simp add: apply_all_def r)
qed

lemma Replay_loop_end: "Replay_loop \<lparr>pending = [], final = EOF\<rparr> apply s = (None, s)"
  by (rule Replay_loop_Stop [where ?br1.0 = "\<lparr>pending = [], final = EOF\<rparr>"])
     (simp add: read_record_def ReadFull_def)

section \<open>Facts about the store\<close>

lemma next_fault_fault_free:
  "fault_free f \<Longrightarrow> next_fault f = (NoFault, f\<lparr>faults := tl (faults f)\<rparr>)"
  by (cases "faults f") (simp_all add: next_fault_def fault_free_def)

lemma list_all_tl: "list_all P xs \<Longrightarrow> list_all P (tl xs)"
  by (cases xs) simp_all

lemma fault_free_tl [simp]: "fault_free f \<Longrightarrow> fault_free (f\<lparr>faults := tl (faults f)\<rparr>)"
  by (cases "faults f") (simp_all add: fault_free_def)

lemma fault_free_upd [simp]:
  "fault_free (f\<lparr>is_closed := c\<rparr>) = fault_free f"
  "fault_free (f\<lparr>content := bs\<rparr>) = fault_free f"
  by (simp_all add: fault_free_def)

lemma OpenKV_fault_free:
  assumes "fault_free F"
    and "Replay_loop \<lparr>pending = content F, final = EOF\<rparr> kv_apply Map.empty = (None, m)"
  shows "\<exists>kv. OpenKV F n = Inr kv \<and> mem kv = m \<and> fsyncEvery kv = n \<and>
           content (kv_file kv) = content F \<and> fault_free (kv_file kv) \<and>
           \<not> is_closed (kv_file kv) \<and> buf (bufw (wal kv)) = [] \<and> err (bufw (wal kv)) = None"
proof -
  define F1 where "F1 = F\<lparr>faults := tl (faults F)\<rparr>\<lparr>is_closed := False\<rparr>"
  define F2 where "F2 = F1\<lparr>faults := tl (faults F1)\<rparr>"
  define F3 where "F3 = F2\<lparr>faults := tl (faults F2)\<rparr>"
  have ff: "fault_free F1" "fault_free F2" "fault_free F3"
    using assms(1) by (simp_all add: F1_def F2_def F3_def fault_free_def list_all_tl)
  have o: "OpenWAL F = Inr \<lparr>bufw = \<lparr>buf = [], err = None, wr = F1\<rparr>\<rparr>"
    using next_fault_fault_free [OF assms(1)]
    by (simp add: OpenWAL_def os_OpenFile_def NewWriterSize_def F1_def)
  have r: "os_Open F1 = (Inr \<lparr>pending = content F, final = EOF\<rparr>, F3)"
    using next_fault_fault_free [OF ff(1)] next_fault_fault_free [OF ff(2)]
    by (simp add: os_Open_def F2_def F3_def) (simp add: F1_def)
  have "OpenKV F n = Inr \<lparr>mem = m, wal = \<lparr>bufw = \<lparr>buf = [], err = None, wr = F3\<rparr>\<rparr>, fsyncEvery = n\<rparr>"
    using o r assms(2) by (simp add: OpenKV_def WAL_Replay_def)
  moreover have "content F3 = content F" "\<not> is_closed F3"
    by (simp_all add: F3_def F2_def F1_def)
  ultimately show ?thesis using ff by (simp add: kv_file_def)
qed

lemma WAL_Sync_None:
  assumes "WAL_Sync w = (None, w')" "buf (bufw w) = []"
  shows "content (wal_f w') = content (wal_f w) \<and> buf (bufw w') = [] \<and> err (bufw w') = None \<and>
         is_closed (wal_f w') = is_closed (wal_f w)"
proof -
  obtain e1 b1 where f: "Flush (bufw w) = (e1, b1)" by (metis prod.exhaust)
  obtain e2 f2 where s: "file_Sync (wr b1) = (e2, f2)" by (metis prod.exhaust)
  from assms(1) f s have n: "e1 = None" "e2 = None" "w' = w\<lparr>bufw := b1\<lparr>wr := f2\<rparr>\<rparr>"
    by (auto simp: WAL_Sync_def split: option.splits)
  from s n have "content f2 = content (wr b1)" "is_closed f2 = is_closed (wr b1)"
    by (auto simp: file_Sync_def next_fault_def split: if_splits list.splits fault.splits)
  with Flush_None [OF f [unfolded n]] assms(2) n show ?thesis
    by (simp add: wal_f_def)
qed

lemma WAL_Sync_fault_free:
  assumes "fault_free (wal_f w)" "\<not> is_closed (wal_f w)" "err (bufw w) = None"
  shows "fst (WAL_Sync w) = None \<and> fault_free (wal_f (snd (WAL_Sync w)))"
proof -
  define b1 where "b1 = snd (Flush (bufw w))"
  have f: "Flush (bufw w) = (None, b1)" "fault_free (wr b1)"
    using Flush_fault_free [of "bufw w"] assms by (simp_all add: b1_def wal_f_def prod_eq_iff)
  from Flush_None [OF f(1)] assms have c: "\<not> is_closed (wr b1)" by (simp add: wal_f_def)
  show ?thesis
    using f c next_fault_fault_free [OF f(2)]
    by (simp add: WAL_Sync_def file_Sync_def wal_f_def)
qed

lemma kv_append_then_apply:
  assumes a: "appendRecord op key val (wal kv) = (None, w1)"
    and s: "(if fsyncEvery kv = 1 then WAL_Sync w1 else (None, w1)) = (None, w2)"
    and b: "buf (bufw (wal kv)) = []"
  shows "content (wal_f w2) = content (kv_file kv) @ spec_record op key val \<and>
         buf (bufw w2) = [] \<and> err (bufw w2) = None \<and> is_closed (wal_f w2) = is_closed (kv_file kv)"
proof -
  note r1 = appendRecord_None [OF a b]
  show ?thesis
  proof (cases "fsyncEvery kv = 1")
    case True
    with s have "WAL_Sync w1 = (None, w2)" by simp
    from WAL_Sync_None [OF this] r1 show ?thesis by (simp add: kv_file_def wal_f_def)
  next
    case False
    with s r1 show ?thesis by (simp add: kv_file_def wal_f_def)
  qed
qed

lemma KV_Set_None:
  assumes "KV_Set key val kv = (None, kv')" "buf (bufw (wal kv)) = []"
  shows "content (kv_file kv') = content (kv_file kv) @ spec_record opSet key val \<and>
         mem kv' = (mem kv)(key \<mapsto> val) \<and> fsyncEvery kv' = fsyncEvery kv \<and>
         buf (bufw (wal kv')) = [] \<and> err (bufw (wal kv')) = None \<and>
         is_closed (kv_file kv') = is_closed (kv_file kv)"
proof -
  obtain e1 w1 where a: "appendRecord opSet key val (wal kv) = (e1, w1)" by (metis prod.exhaust)
  obtain e2 w2 where s: "(if fsyncEvery kv = 1 then WAL_Sync w1 else (None, w1)) = (e2, w2)"
    by (metis prod.exhaust)
  from assms(1) a s have n: "e1 = None" "e2 = None"
      "kv' = kv\<lparr>wal := w2, mem := (mem kv)(key \<mapsto> val)\<rparr>"
    by (auto simp: KV_Set_def AppendSET_def split: option.splits)
  from kv_append_then_apply [OF a [unfolded n] s [unfolded n] assms(2)] n(3)
  show ?thesis by (simp add: kv_file_def wal_f_def)
qed

lemma KV_Del_None:
  assumes "KV_Del key kv = (None, kv')" "buf (bufw (wal kv)) = []"
  shows "content (kv_file kv') = content (kv_file kv) @ spec_record opDel key [] \<and>
         mem kv' = (mem kv)(key := None) \<and> fsyncEvery kv' = fsyncEvery kv \<and>
         buf (bufw (wal kv')) = [] \<and> err (bufw (wal kv')) = None \<and>
         is_closed (kv_file kv') = is_closed (kv_file kv)"
proof -
  obtain e1 w1 where a: "appendRecord opDel key [] (wal kv) = (e1, w1)" by (metis prod.exhaust)
  obtain e2 w2 where s: "(if fsyncEvery kv = 1 then WAL_Sync w1 else (None, w1)) = (e2, w2)"
    by (metis prod.exhaust)
  from assms(1) a s have n: "e1 = None" "e2 = None"
      "kv' = kv\<lparr>wal := w2, mem := (mem kv)(key := None)\<rparr>"
    by (auto simp: KV_Del_def AppendDEL_def split: option.splits)
  from kv_append_then_apply [OF a [unfolded n] s [unfolded n] assms(2)] n(3)
  show ?thesis by (simp add: kv_file_def wal_f_def)
qed

lemma kv_append_fault_free:
  assumes "fault_free (kv_file kv)" "\<not> is_closed (kv_file kv)" "err (bufw (wal kv)) = None"
  shows "\<exists>w1 w2. appendRecord op key val (wal kv) = (None, w1) \<and>
           (if fsyncEvery kv = 1 then WAL_Sync w1 else (None, w1)) = (None, w2) \<and>
           fault_free (wal_f w2)"
proof -
  define w1 where "w1 = snd (appendRecord op key val (wal kv))"
  have a: "appendRecord op key val (wal kv) = (None, w1)" "fault_free (wal_f w1)"
      "\<not> is_closed (wal_f w1)" "err (bufw w1) = None"
    using appendRecord_fault_free [of "wal kv" op key val] assms
    by (simp_all add: w1_def kv_file_def wal_f_def prod_eq_iff)
  show ?thesis
  proof (cases "fsyncEvery kv = 1")
    case True
    with a WAL_Sync_fault_free [OF a(2,3,4)] show ?thesis
      by (simp add: prod_eq_iff)
  next
    case False
    with a show ?thesis by simp
  qed
qed

lemma KV_Set_fault_free:
  assumes "fault_free (kv_file kv)" "\<not> is_closed (kv_file kv)" "err (bufw (wal kv)) = None"
  shows "fst (KV_Set key val kv) = None \<and> fault_free (kv_file (snd (KV_Set key val kv)))"
  using kv_append_fault_free [OF assms, of opSet key val]
  by (auto simp: KV_Set_def AppendSET_def kv_file_def wal_f_def)

lemma KV_Del_fault_free:
  assumes "fault_free (kv_file kv)" "\<not> is_closed (kv_file kv)" "err (bufw (wal kv)) = None"
  shows "fst (KV_Del key kv) = None \<and> fault_free (kv_file (snd (KV_Del key kv)))"
  using kv_append_fault_free [OF assms, of opDel key "[]"]
  by (auto simp: KV_Del_def AppendDEL_def kv_file_def wal_f_def)

lemma do_call_None:
  assumes "do_call c kv = (None, kv')" "buf (bufw (wal kv)) = []"
  shows "content (kv_file kv') = content (kv_file kv) @ rec_bytes (call_rec c) \<and>
         mem kv' = map_call (mem kv) c \<and> fsyncEvery kv' = fsyncEvery kv \<and>
         buf (bufw (wal kv')) = [] \<and> err (bufw (wal kv')) = None \<and>
         is_closed (kv_file kv') = is_closed (kv_file kv)"
proof (cases c)
  case (SetCall k v)
  with assms KV_Set_None [of k v kv kv'] show ?thesis by (simp add: rec_bytes_def)
next
  case (DelCall k)
  with assms KV_Del_None [of k kv kv'] show ?thesis by (simp add: rec_bytes_def)
qed

lemma do_calls_None:
  "do_calls cs kv = (None, kv') \<Longrightarrow> buf (bufw (wal kv)) = [] \<Longrightarrow>
   err (bufw (wal kv)) = None \<Longrightarrow>
     content (kv_file kv') = content (kv_file kv) @ log_bytes (map call_rec cs) \<and>
     mem kv' = foldl map_call (mem kv) cs \<and> fsyncEvery kv' = fsyncEvery kv \<and>
     buf (bufw (wal kv')) = [] \<and> err (bufw (wal kv')) = None \<and>
     is_closed (kv_file kv') = is_closed (kv_file kv)"
proof (induction cs arbitrary: kv)
  case Nil
  then show ?case by (simp add: log_bytes_def)
next
  case (Cons c cs)
  obtain e1 kv1 where c: "do_call c kv = (e1, kv1)" by (metis prod.exhaust)
  with Cons.prems(1) have e1: "e1 = None" and r: "do_calls cs kv1 = (None, kv')"
    by (auto split: option.splits)
  note s1 = do_call_None [OF c [unfolded e1] Cons.prems(2)]
  from Cons.IH [OF r] s1 show ?case
    by (simp add: log_bytes_Cons)
qed

lemma do_call_fault_free:
  assumes "fault_free (kv_file kv)" "\<not> is_closed (kv_file kv)" "err (bufw (wal kv)) = None"
  shows "fst (do_call c kv) = None \<and> fault_free (kv_file (snd (do_call c kv)))"
  using KV_Set_fault_free [OF assms] KV_Del_fault_free [OF assms] by (cases c) simp_all

lemma do_calls_fault_free:
  "fault_free (kv_file kv) \<Longrightarrow> \<not> is_closed (kv_file kv) \<Longrightarrow> buf (bufw (wal kv)) = [] \<Longrightarrow>
   err (bufw (wal kv)) = None \<Longrightarrow>
     fst (do_calls cs kv) = None \<and> fault_free (kv_file (snd (do_calls cs kv)))"
proof (induction cs arbitrary: kv)
  case Nil
  then show ?case by simp
next
  case (Cons c cs)
  define kv1 where "kv1 = snd (do_call c kv)"
  have c: "do_call c kv = (None, kv1)" "fault_free (kv_file kv1)"
    using do_call_fault_free [OF Cons.prems(1,2,4), of c] by (simp_all add: kv1_def prod_eq_iff)
  from do_call_None [OF c(1) Cons.prems(3)] Cons.prems
  have "\<not> is_closed (kv_file kv1)" "buf (bufw (wal kv1)) = []" "err (bufw (wal kv1)) = None"
    by simp_all
  from Cons.IH [OF c(2) this] c(1) show ?case by simp
qed

lemma apply_all_calls: "apply_all kv_apply (map call_rec cs) m = foldl map_call m cs"
proof (induction cs arbitrary: m)
  case Nil
  then show ?case by (simp add: apply_all_def)
next
  case (Cons c cs)
  have "apply_all kv_apply (map call_rec (c # cs)) m =
        apply_all kv_apply (map call_rec cs) (apply_all kv_apply [call_rec c] m)"
    using apply_all_append [of kv_apply "[call_rec c]" "map call_rec cs" m] by simp
  moreover have "apply_all kv_apply [call_rec c] m = map_call m c"
    by (cases c) (simp_all add: apply_all_def kv_apply_def opSet_def opDel_def)
  ultimately show ?case using Cons.IH by simp
qed

lemma length_spec_record [simp]: "length (spec_record op key val) = 13 + length key + length val"
  by (simp add: spec_record_eq)

lemma spec_record_not_Nil [simp]: "spec_record op key val \<noteq> []"
  using length_spec_record [of op key val] by (metis add_is_0 length_0_conv zero_neq_numeral)

lemma bufio_Write_fits:
  "err b = None \<Longrightarrow> length p \<le> Available b \<Longrightarrow> bufio_Write p b = (None, b\<lparr>buf := buf b @ p\<rparr>)"
  by (subst bufio_Write.simps) simp

text \<open>A record that fits the buffer reaches the file in the one write of the final flush.\<close>

lemma appendRecord_small:
  assumes "buf (bufw w) = []" "err (bufw w) = None" "13 + length key + length val \<le> bufSize"
  shows "appendRecord op key val w =
           (case Flush ((bufw w)\<lparr>buf := spec_record op key val\<rparr>) of (e, b5) \<Rightarrow> (e, w\<lparr>bufw := b5\<rparr>))"
proof -
  define header where "header = record_header op (of_nat (length key)) (of_nat (length val))"
  define sum where "sum = record_sum header key val"
  have w1: "bufio_Write header (bufw w) = (None, (bufw w)\<lparr>buf := header\<rparr>)"
    using assms bufio_Write_fits [of "bufw w" header]
    by (simp add: Available_def header_def)
  have w2: "bufio_Write key ((bufw w)\<lparr>buf := header\<rparr>) = (None, (bufw w)\<lparr>buf := header @ key\<rparr>)"
    using assms bufio_Write_fits [of "(bufw w)\<lparr>buf := header\<rparr>" key]
    by (simp add: Available_def header_def)
  have w3: "(if length val > 0 then bufio_Write val ((bufw w)\<lparr>buf := header @ key\<rparr>)
             else (None, (bufw w)\<lparr>buf := header @ key\<rparr>)) = (None, (bufw w)\<lparr>buf := header @ key @ val\<rparr>)"
    using assms bufio_Write_fits [of "(bufw w)\<lparr>buf := header @ key\<rparr>" val]
    by (simp add: Available_def header_def)
  have w4: "bufio_Write (PutUint32 sum) ((bufw w)\<lparr>buf := header @ key @ val\<rparr>) =
              (None, (bufw w)\<lparr>buf := header @ key @ val @ PutUint32 sum\<rparr>)"
    using assms bufio_Write_fits [of "(bufw w)\<lparr>buf := header @ key @ val\<rparr>" "PutUint32 sum"]
    by (simp add: Available_def header_def)
  show ?thesis
    unfolding appendRecord_def header_def [symmetric] Let_def sum_def [symmetric]
    by (simp only: w1 w2 w3 w4 prod.case option.case)
       (simp add: spec_record_eq header_def sum_def)
qed

lemma KV_Close_content:
  assumes "buf (bufw (wal kv)) = []" "err (bufw (wal kv)) = None"
  shows "content (kv_file (snd (KV_Close kv))) = content (kv_file kv)"
  using assms
  by (auto simp: KV_Close_def WAL_Close_def Flush_def file_Close_def next_fault_def kv_file_def
           split: prod.splits option.splits list.splits fault.splits)



lemma ReadFull_short:
  "length (pending br) < k \<Longrightarrow> \<exists>e br1. ReadFull br k = (Inl e, br1) \<and> (final br = EOF \<longrightarrow> e = EOF \<or> e = ErrUnexpectedEOF)"
  by (simp add: ReadFull_def)

lemma read_record_torn:
  assumes b: "in_bounds key val" and n: "n < length (spec_record op key val)"
  shows "fst (read_record \<lparr>pending = take n (spec_record op key val), final = EOF\<rparr>) = Stop None"
proof -
  define header where "header = record_header op (of_nat (length key)) (of_nat (length val))"
  define crc where "crc = PutUint32 (record_sum header key val)"
  have R: "spec_record op key val = header @ key @ val @ crc"
    by (simp add: spec_record_eq header_def crc_def)
  have lh: "length header = 9" and lc: "length crc = 4"
    by (simp_all add: header_def crc_def)
  note w = in_bounds_words [OF b]
  show ?thesis
  proof (cases "n < 9")
    case True
    then obtain e br1 where "ReadFull \<lparr>pending = take n (spec_record op key val), final = EOF\<rparr> 9 = (Inl e, br1)"
      "e = EOF \<or> e = ErrUnexpectedEOF"
      using ReadFull_short [of "\<lparr>pending = take n (spec_record op key val), final = EOF\<rparr>" 9] by auto
    then show ?thesis by (auto simp: read_record_def)
  next
    case False
    define X where "X = take (n - 9) (key @ val @ crc)"
    have t: "take n (spec_record op key val) = header @ X"
      using False by (simp add: R lh X_def)
    have r1: "ReadFull \<lparr>pending = header @ X, final = EOF\<rparr> 9 = (Inr header, \<lparr>pending = X, final = EOF\<rparr>)"
      using ReadFull_append [of header X EOF] by (simp add: lh)
    note eq = read_record_header [OF r1 [unfolded header_def], folded header_def]
    show ?thesis
    proof (cases "n - 9 < length key")
      case True
      then obtain e br2 where "ReadFull \<lparr>pending = X, final = EOF\<rparr> (length key) = (Inl e, br2)"
        using ReadFull_short [of "\<lparr>pending = X, final = EOF\<rparr>" "length key"] by (auto simp: X_def)
      then show ?thesis unfolding t eq using w by simp
    next
      case k: False
      define Y where "Y = take (n - 9 - length key) (val @ crc)"
      have X: "X = key @ Y" using k by (simp add: X_def Y_def)
      have r2: "ReadFull \<lparr>pending = X, final = EOF\<rparr> (length key) = (Inr key, \<lparr>pending = Y, final = EOF\<rparr>)"
        unfolding X by (rule ReadFull_append)
      show ?thesis
      proof (cases "n - 9 - length key < length val")
        case True
        then obtain e br3 where "ReadFull \<lparr>pending = Y, final = EOF\<rparr> (length val) = (Inl e, br3)"
          using ReadFull_short [of "\<lparr>pending = Y, final = EOF\<rparr>" "length val"] by (auto simp: Y_def)
        moreover from True have "val \<noteq> []" by auto
        ultimately show ?thesis unfolding t eq using w r2 by simp
      next
        case v: False
        define Z where "Z = take (n - 9 - length key - length val) crc"
        have Y: "Y = val @ Z" using v by (simp add: Y_def Z_def)
        have r3: "(if (of_nat (length val) :: uint32) > 0
                   then ReadFull \<lparr>pending = Y, final = EOF\<rparr> (length val)
                   else (Inr [], \<lparr>pending = Y, final = EOF\<rparr>)) = (Inr val, \<lparr>pending = Z, final = EOF\<rparr>)"
          using w(6) ReadFull_append [of val Z EOF] by (cases "val = []") (simp_all add: Y)
        have "length Z < 4" using n k v by (simp add: Z_def R lh lc)
        then obtain e br4 where "ReadFull \<lparr>pending = Z, final = EOF\<rparr> 4 = (Inl e, br4)"
          using ReadFull_short [of "\<lparr>pending = Z, final = EOF\<rparr>" 4] by auto
        then show ?thesis unfolding t eq using w r2 r3 by (cases "val = []") simp_all
      qed
    qed
  qed
qed

lemma WAL_Replay_fault_free:
  assumes "fault_free (wal_f w)"
  shows "fst (WAL_Replay w apply s) = Replay_loop \<lparr>pending = content (wal_f w), final = EOF\<rparr> apply s"
proof -
  have "fault_free ((wal_f w)\<lparr>faults := tl (faults (wal_f w))\<rparr>)"
    using assms by simp
  from next_fault_fault_free [OF assms] next_fault_fault_free [OF this]
  show ?thesis
    by (simp add: WAL_Replay_def os_Open_def wal_f_def)
qed

lemma apply_all_skip:
  assumes "op \<noteq> opSet" "op \<noteq> opDel"
  shows "apply_all kv_apply (rs1 @ [(op, key, val)] @ rs2) m = apply_all kv_apply (rs1 @ rs2) m"
  using assms by (simp add: apply_all_def kv_apply_def)

lemma Replay_loop_whole_log:
  "list_all rec_ok rs \<Longrightarrow>
     Replay_loop \<lparr>pending = log_bytes rs, final = EOF\<rparr> apply s = (None, apply_all apply rs s)"
  using Replay_loop_log [of rs "[]" EOF "apply" s] by (simp add: Replay_loop_end)

lemma Replay_loop_torn:
  assumes "list_all rec_ok rs" "rec_ok r" "n < length (rec_bytes r)"
  shows "Replay_loop \<lparr>pending = log_bytes rs @ take n (rec_bytes r), final = EOF\<rparr> apply s =
           (None, apply_all apply rs s)"
proof -
  obtain op key val where r: "r = (op, key, val)" by (cases r)
  from assms(2,3) r have b: "in_bounds key val" and n: "n < length (spec_record op key val)"
    by (simp_all add: rec_ok_def rec_bytes_def)
  obtain br1 where "read_record \<lparr>pending = take n (spec_record op key val), final = EOF\<rparr> = (Stop None, br1)"
    using read_record_torn [OF b n] by (metis prod.collapse)
  from Replay_loop_Stop [OF this] Replay_loop_log [OF assms(1), of "take n (rec_bytes r)" EOF "apply" s]
  show ?thesis by (simp add: r rec_bytes_def)
qed

lemma read_record_empty_key:
  "fst (read_record \<lparr>pending = spec_record op [] val @ rest, final = e\<rparr>) = Stop None"
proof -
  define header where "header = record_header op 0 (of_nat (length val))"
  define X where "X = val @ PutUint32 (record_sum header [] val) @ rest"
  have "ReadFull \<lparr>pending = header @ X, final = e\<rparr> 9 = (Inr header, \<lparr>pending = X, final = e\<rparr>)"
    using ReadFull_append [of header X e] by (simp add: header_def)
  from read_record_header [OF this [unfolded header_def]] show ?thesis
    by (simp add: spec_record_eq header_def X_def)
qed

lemma Replay_loop_empty_key:
  assumes "list_all rec_ok rs"
  shows "Replay_loop \<lparr>pending = log_bytes rs @ spec_record op [] val @ rest, final = e\<rparr> apply s =
           (None, apply_all apply rs s)"
proof -
  obtain br1 where "read_record \<lparr>pending = spec_record op [] val @ rest, final = e\<rparr> = (Stop None, br1)"
    using read_record_empty_key [of op val rest e] by (metis prod.collapse)
  from Replay_loop_Stop [OF this] Replay_loop_log [OF assms, of "spec_record op [] val @ rest" e "apply" s]
  show ?thesis by simp
qed

lemma KV_Close_fault_free:
  assumes "fault_free (kv_file kv)" "buf (bufw (wal kv)) = []" "err (bufw (wal kv)) = None"
  shows "fault_free (kv_file (snd (KV_Close kv)))"
proof -
  have "Flush (bufw (wal kv)) = (None, bufw (wal kv))"
    using assms by (simp add: Flush_def)
  moreover have "fault_free (snd (file_Close (wr (bufw (wal kv)))))"
    using assms(1) next_fault_fault_free [of "wr (bufw (wal kv))"]
    by (simp add: file_Close_def kv_file_def)
  ultimately show ?thesis
    by (auto simp: KV_Close_def WAL_Close_def kv_file_def split: prod.splits)
qed

lemma reopen_fault_free:
  assumes "fault_free (kv_file kv)" "buf (bufw (wal kv)) = []" "err (bufw (wal kv)) = None"
    and "Replay_loop \<lparr>pending = content (kv_file kv), final = EOF\<rparr> kv_apply Map.empty = (None, m)"
  shows "\<exists>kv'. reopen kv n = Inr kv' \<and> mem kv' = m"
  using OpenKV_fault_free [OF KV_Close_fault_free [OF assms(1,2,3)], of m n]
    KV_Close_content [OF assms(2,3)] assms(4)
  by (auto simp: reopen_def split: prod.splits)

lemma OpenKV_fresh:
  assumes "OpenKV F n = Inr kv" "content F = []"
  shows "fresh kv"
proof -
  have "take k (content F) = []" for k using assms(2) by simp
  have st: "fst (read_record \<lparr>pending = [], final = e\<rparr>) = Stop (if e = EOF \<or> e = ErrUnexpectedEOF then None else Some e)" for e
    by (simp add: read_record_def ReadFull_def)
  have rl: "Replay_loop \<lparr>pending = [], final = e\<rparr> kv_apply Map.empty =
        (if e = EOF \<or> e = ErrUnexpectedEOF then None else Some e, Map.empty)" for e
    using st [of e] Replay_loop_Stop [of "\<lparr>pending = [], final = e\<rparr>" _ _ kv_apply Map.empty]
    by (metis prod.collapse)
  show ?thesis
    using assms
    by (auto simp: OpenKV_def OpenWAL_def os_OpenFile_def WAL_Replay_def os_Open_def next_fault_def
          NewWriterSize_def fresh_def kv_file_def rl
        split: sum.splits prod.splits option.splits list.splits fault.splits if_splits)
qed

lemma OpenKV_empty:
  "OpenKV \<lparr>content = [], faults = [], is_closed = c\<rparr> n = Inr (empty_store [] n)"
  by (simp add: OpenKV_def OpenWAL_def os_OpenFile_def WAL_Replay_def os_Open_def next_fault_def
        NewWriterSize_def empty_store_def Replay_loop_end)

lemma OpenKV_empty_faults:
  "OpenKV \<lparr>content = [], faults = NoFault # NoFault # NoFault # fs, is_closed = c\<rparr> n =
     Inr (empty_store fs n)"
  by (simp add: OpenKV_def OpenWAL_def os_OpenFile_def WAL_Replay_def os_Open_def next_fault_def
        NewWriterSize_def empty_store_def Replay_loop_end)

lemma fresh_empty_store: "fresh (empty_store fs n)"
  by (simp add: fresh_def empty_store_def kv_file_def)

lemma calls_in_bounds:
  "list_all (\<lambda>c. in_bounds (call_key c) (call_val c)) cs \<Longrightarrow> list_all rec_ok (map call_rec cs)"
proof (induction cs)
  case Nil
  then show ?case by simp
next
  case (Cons c cs)
  then show ?case by (cases c) (simp_all add: rec_ok_def)
qed









lemma read_record_bad_crc:
  assumes "in_bounds key val"
    and "record_sum (record_header op (of_nat (length key)) (of_nat (length val))) key val \<noteq> c"
  shows "read_record \<lparr>pending = record_header op (of_nat (length key)) (of_nat (length val)) @
                               key @ val @ PutUint32 c @ rest, final = e\<rparr> =
           (Stop None, \<lparr>pending = rest, final = e\<rparr>)"
proof -
  define header where "header = record_header op (of_nat (length key)) (of_nat (length val))"
  note w = in_bounds_words [OF assms(1)]
  have h9: "9 = length header" by (simp add: header_def)
  have c4: "4 = length (PutUint32 c)" by simp
  have r1: "ReadFull \<lparr>pending = header @ key @ val @ PutUint32 c @ rest, final = e\<rparr> 9 =
              (Inr header, \<lparr>pending = key @ val @ PutUint32 c @ rest, final = e\<rparr>)"
    by (subst h9) (rule ReadFull_append)
  have r2: "ReadFull \<lparr>pending = key @ val @ PutUint32 c @ rest, final = e\<rparr> (length key) =
              (Inr key, \<lparr>pending = val @ PutUint32 c @ rest, final = e\<rparr>)"
    by (rule ReadFull_append)
  have r3: "ReadFull \<lparr>pending = val @ PutUint32 c @ rest, final = e\<rparr> (length val) =
              (Inr val, \<lparr>pending = PutUint32 c @ rest, final = e\<rparr>)"
    by (rule ReadFull_append)
  have r4: "ReadFull \<lparr>pending = PutUint32 c @ rest, final = e\<rparr> 4 =
              (Inr (PutUint32 c), \<lparr>pending = rest, final = e\<rparr>)"
    by (subst c4) (rule ReadFull_append)
  show ?thesis
    using read_record_header [OF r1 [unfolded header_def]] w r2 r3 r4 assms(2)
    by (cases "val = []") (simp_all add: header_def)
qed

lemma flipped_record:
  assumes "i = 0 \<or> (9 \<le> i \<and> i < 9 + length key + length val)" and "j < 8"
  shows "\<exists>op' key' val'. length key' = length key \<and> length val' = length val \<and>
           flip_at i j (spec_record op key val) =
             record_header op' (of_nat (length key)) (of_nat (length val)) @ key' @ val' @
             PutUint32 (record_sum (record_header op (of_nat (length key)) (of_nat (length val))) key val) \<and>
           record_sum (record_header op' (of_nat (length key)) (of_nat (length val))) key' val' \<noteq>
             record_sum (record_header op (of_nat (length key)) (of_nat (length val))) key val"
proof -
  define header where "header = record_header op (of_nat (length key)) (of_nat (length val))"
  define body where "body = header @ key @ val"
  define c where "c = record_sum header key val"
  define b' where "b' = flip_bit j (body ! i)"
  have lh: "length header = 9" by (simp add: header_def)
  have i: "i < length body"
    using assms(1) by (auto simp: body_def lh)
  have ne: "b' \<noteq> body ! i"
    using assms(2) by (simp add: b'_def flip_bit_neq)
  have R: "spec_record op key val = body @ PutUint32 c"
    by (simp add: spec_record_eq body_def header_def c_def)
  have F: "flip_at i j (spec_record op key val) = body[i := b'] @ PutUint32 c"
    using i by (simp add: flip_at_def R list_update_append1 nth_append b'_def)
  have crc: "crc32_ChecksumIEEE (body[i := b']) \<noteq> c"
    using crc32_Update_byte_change [OF i ne, of 0]
    by (simp add: crc32_ChecksumIEEE_def c_def record_sum_eq body_def)
  from assms(1) show ?thesis
  proof
    assume i0: "i = 0"
    have u: "body[i := b'] = record_header b' (of_nat (length key)) (of_nat (length val)) @ key @ val"
      by (simp add: i0 body_def header_def record_header_def)
    show ?thesis
      using F crc unfolding u c_def header_def
      by (intro exI [of _ b'] exI [of _ key] exI [of _ val]) (simp add: record_sum_eq)
  next
    assume i9: "9 \<le> i \<and> i < 9 + length key + length val"
    define kv where "kv = (key @ val)[i - 9 := b']"
    have u: "body[i := b'] = header @ take (length key) kv @ drop (length key) kv"
      using i9 by (simp add: body_def list_update_append lh kv_def)
    have l: "length (take (length key) kv) = length key" "length (drop (length key) kv) = length val"
      by (simp_all add: kv_def)
    show ?thesis
      using F crc l unfolding u c_def header_def
      by (intro exI [of _ op] exI [of _ "take (length key) kv"] exI [of _ "drop (length key) kv"])
         (simp add: record_sum_eq)
  qed
qed

lemma read_record_flipped:
  assumes "in_bounds key val"
    and "i = 0 \<or> (9 \<le> i \<and> i < 9 + length key + length val)" and "j < 8"
  shows "read_record \<lparr>pending = flip_at i j (spec_record op key val) @ rest, final = e\<rparr> =
           (Stop None, \<lparr>pending = rest, final = e\<rparr>)"
proof -
  from flipped_record [OF assms(2,3), of op] obtain op' key' val' where
    l: "length key' = length key" "length val' = length val" and
    f: "flip_at i j (spec_record op key val) =
          record_header op' (of_nat (length key')) (of_nat (length val')) @ key' @ val' @
          PutUint32 (record_sum (record_header op (of_nat (length key)) (of_nat (length val))) key val)" and
    c: "record_sum (record_header op' (of_nat (length key')) (of_nat (length val'))) key' val' \<noteq>
          record_sum (record_header op (of_nat (length key)) (of_nat (length val))) key val"
    by auto
  have b: "in_bounds key' val'"
    using assms(1) l by (simp add: in_bounds_def)
  from read_record_bad_crc [OF b c, of rest e] show ?thesis
    by (simp add: f)
qed





















section \<open>The claims\<close>

text \<open>
  C1 (crash consistency), as the code has it. Take a store freshly opened on an empty log,
  and a sequence of \<open>Set\<close>/\<open>Del\<close> calls that all return no error, every key being 1 to 2^20
  bytes long and every value at most 64*2^20 bytes. When the store is then closed and
  opened again with no I/O failure on the way, the table is the map
  obtained by applying the calls, in order, to the empty map, which is also the table the
  store had before it was closed.
\<close>

theorem reopen_rebuilds_table:
  assumes "OpenKV F n0 = Inr kv0" and "content F = []"
    and "fst (do_calls cs kv0) = None"
    and "list_all (\<lambda>c. in_bounds (call_key c) (call_val c)) cs"
    and "fault_free (kv_file (snd (do_calls cs kv0)))"
  shows "\<exists>kv'. reopen (snd (do_calls cs kv0)) n = Inr kv' \<and>
           mem kv' = map_of_calls cs \<and> mem kv' = mem (snd (do_calls cs kv0))"
proof -
  define kvN where "kvN = snd (do_calls cs kv0)"
  have fr: "fresh kv0" by (rule OpenKV_fresh [OF assms(1,2)])
  then have b0: "buf (bufw (wal kv0)) = []" "err (bufw (wal kv0)) = None"
      "content (kv_file kv0) = []" "mem kv0 = Map.empty"
    by (simp_all add: fresh_def)
  have d: "do_calls cs kv0 = (None, kvN)"
    using assms(3) by (simp add: kvN_def prod_eq_iff)
  note r = do_calls_None [OF d b0(1,2)]
  have c: "content (kv_file kvN) = log_bytes (map call_rec cs)"
    using r b0 by simp
  have m: "mem kvN = map_of_calls cs"
    using r b0 by (simp add: map_of_calls_def)
  have "Replay_loop \<lparr>pending = content (kv_file kvN), final = EOF\<rparr> kv_apply Map.empty =
          (None, map_of_calls cs)"
    unfolding c using Replay_loop_whole_log [OF calls_in_bounds [OF assms(4)], of kv_apply Map.empty]
    by (simp add: apply_all_calls map_of_calls_def)
  from reopen_fault_free [OF _ _ _ this, of n] assms(5) r m show ?thesis
    unfolding kvN_def [symmetric] by simp
qed

theorem reopen_rebuilds_table_witness:
  "OpenKV \<lparr>content = [], faults = [], is_closed = False\<rparr> 0 = Inr (empty_store [] 0) \<and>
   fst (do_calls [SetCall [0x61] [0x31], SetCall [0x62] [0x32, 0x32], DelCall [0x61]] (empty_store [] 0)) = None \<and>
   list_all (\<lambda>c. in_bounds (call_key c) (call_val c))
     [SetCall [0x61] [0x31], SetCall [0x62] [0x32, 0x32], DelCall [0x61]] \<and>
   fault_free (kv_file (snd (do_calls [SetCall [0x61] [0x31], SetCall [0x62] [0x32, 0x32], DelCall [0x61]]
     (empty_store [] 0)))) \<and>
   map_sum id mem (reopen (snd (do_calls [SetCall [0x61] [0x31], SetCall [0x62] [0x32, 0x32], DelCall [0x61]]
     (empty_store [] 0))) 1) = Inr [[0x62] \<mapsto> [0x32, 0x32]]"
proof -
  define cs where "cs = [SetCall [0x61] [0x31], SetCall [0x62] [0x32, 0x32], DelCall [0x61]]"
  have h1: "OpenKV \<lparr>content = [], faults = [], is_closed = False\<rparr> 0 = Inr (empty_store [] 0)"
    by (rule OpenKV_empty)
  have h2: "content \<lparr>content = [], faults = [], is_closed = False\<rparr> = []"
    by simp
  have ff: "fault_free (kv_file (empty_store [] 0))" "\<not> is_closed (kv_file (empty_store [] 0))"
    "buf (bufw (wal (empty_store [] 0))) = []" "err (bufw (wal (empty_store [] 0))) = None"
    by (simp_all add: empty_store_def kv_file_def fault_free_def)
  have h3: "fst (do_calls cs (empty_store [] 0)) = None" and h5: "fault_free (kv_file (snd (do_calls cs (empty_store [] 0))))"
    using do_calls_fault_free [OF ff, of cs] by simp_all
  have h4: "list_all (\<lambda>c. in_bounds (call_key c) (call_val c)) cs"
    by (simp add: cs_def in_bounds_def)
  have m: "map_of_calls cs = [[0x62] \<mapsto> [0x32, 0x32]]"
    by (auto simp: map_of_calls_def cs_def)
  from reopen_rebuilds_table [OF h1 h2 h3 h4 h5, of 1] h1 h3 h4 h5 m show ?thesis
    unfolding cs_def by auto
qed

text \<open>
  Without the bounds the statement fails: on a fresh store \<open>Set\<close> with the empty key and
  the value \<open>v\<close> returns no error and the table holds the entry, but after closing and
  reopening the table is empty.
\<close>

theorem reopen_loses_empty_key_counterexample:
  "OpenKV \<lparr>content = [], faults = [], is_closed = False\<rparr> 0 = Inr (empty_store [] 0) \<and>
   fst (do_calls [SetCall [] [0x76]] (empty_store [] 0)) = None \<and>
   mem (snd (do_calls [SetCall [] [0x76]] (empty_store [] 0))) = [[] \<mapsto> [0x76]] \<and>
   map_of_calls [SetCall [] [0x76]] = [[] \<mapsto> [0x76]] \<and>
   map_sum id mem (reopen (snd (do_calls [SetCall [] [0x76]] (empty_store [] 0))) 0) = Inr Map.empty \<and>
   Map.empty \<noteq> map_of_calls [SetCall [] [0x76]]"
proof -
  have ff: "fault_free (kv_file (empty_store [] 0))" "\<not> is_closed (kv_file (empty_store [] 0))"
    "buf (bufw (wal (empty_store [] 0))) = []" "err (bufw (wal (empty_store [] 0))) = None"
    by (simp_all add: empty_store_def kv_file_def fault_free_def)
  have s: "fst (KV_Set [] [0x76] (empty_store [] 0)) = None"
    using KV_Set_fault_free [OF ff(1,2,4)] by simp
  then have "KV_Set [] [0x76] (empty_store [] 0) = (None, snd (KV_Set [] [0x76] (empty_store [] 0)))"
    by (simp add: prod_eq_iff)
  note r = KV_Set_None [OF this ff(3)]
  have f1: "fault_free (kv_file (snd (KV_Set [] [0x76] (empty_store [] 0))))"
    using KV_Set_fault_free [OF ff(1,2,4)] by simp
  have c: "content (kv_file (snd (KV_Set [] [0x76] (empty_store [] 0)))) = log_bytes [] @ spec_record opSet [] [0x76] @ []"
    using r by (simp add: empty_store_def kv_file_def log_bytes_def)
  have "Replay_loop \<lparr>pending = content (kv_file (snd (KV_Set [] [0x76] (empty_store [] 0)))), final = EOF\<rparr>
          kv_apply Map.empty = (None, Map.empty)"
    unfolding c using Replay_loop_empty_key [of "[]" opSet "[0x76]" "[]" EOF kv_apply Map.empty]
    by (simp add: apply_all_def)
  from reopen_fault_free [OF f1 _ _ this, of 0] r
  have "map_sum id mem (reopen (snd (KV_Set [] [0x76] (empty_store [] 0))) 0) = Inr Map.empty"
    by auto
  moreover have "map_of_calls [SetCall [] [0x76]] = [[] \<mapsto> [0x76]]"
    by (simp add: map_of_calls_def)
  moreover have "Map.empty \<noteq> [[] \<mapsto> [0x76 :: byte]]"
    by (metis map_upd_nonempty)
  moreover have "mem (snd (KV_Set [] [0x76] (empty_store [] 0))) = [[] \<mapsto> [0x76]]"
    using r by (simp add: empty_store_def)
  moreover have "do_calls [SetCall [] [0x76]] (empty_store [] 0) = (None, snd (KV_Set [] [0x76] (empty_store [] 0)))"
    using s by (cases "KV_Set [] [0x76] (empty_store [] 0)") simp
  ultimately show ?thesis
    using OpenKV_empty [of False 0] by simp
qed

text \<open>
  C2 (round trip). The bytes that a successful \<open>appendRecord\<close> adds to the log for an op
  byte (in particular SET and DEL), a key of 1 to 2^20 bytes and a value of 0 to 64*2^20
  bytes (empty for DEL) are read back by the decoder as exactly that op, key and value; it
  signals neither the end of the stream nor corruption, and stands right behind the record.
\<close>

theorem encode_decode_round_trip:
  assumes "in_bounds key val"
    and "fst (appendRecord op key val w) = None"
    and "buf (bufw w) = []"
  shows "\<exists>bytes. content (wal_f (snd (appendRecord op key val w))) = content (wal_f w) @ bytes \<and>
           read_record \<lparr>pending = bytes @ rest, final = e\<rparr> =
             (Rec op key val, \<lparr>pending = rest, final = e\<rparr>)"
proof -
  have "appendRecord op key val w = (None, snd (appendRecord op key val w))"
    using assms(2) by (simp add: prod_eq_iff)
  from appendRecord_None [OF this assms(3)] read_record_spec_record [OF assms(1)]
  show ?thesis by blast
qed

theorem encode_decode_round_trip_witness:
  "in_bounds [0x6B] [0x76, 0x31] \<and>
   fst (appendRecord opSet [0x6B] [0x76, 0x31] (wal (empty_store [] 0))) = None \<and>
   buf (bufw (wal (empty_store [] 0))) = [] \<and>
   (\<exists>bytes. content (wal_f (snd (appendRecord opSet [0x6B] [0x76, 0x31] (wal (empty_store [] 0))))) =
              content (wal_f (wal (empty_store [] 0))) @ bytes \<and>
            read_record \<lparr>pending = bytes @ [0x02], final = EOF\<rparr> =
              (Rec opSet [0x6B] [0x76, 0x31], \<lparr>pending = [0x02], final = EOF\<rparr>))"
proof -
  have h1: "in_bounds [0x6B] [0x76, 0x31]"
    by (simp add: in_bounds_def)
  have h2: "fst (appendRecord opSet [0x6B] [0x76, 0x31] (wal (empty_store [] 0))) = None"
    by (simp add: appendRecord_small empty_store_def bufSize_def Flush_def file_Write_def
          next_fault_def Let_def)
  have h3: "buf (bufw (wal (empty_store [] 0))) = []"
    by (simp add: empty_store_def)
  from encode_decode_round_trip [OF h1 h2 h3, of "[0x02]" EOF] h1 h2 h3 show ?thesis
    by simp
qed




text \<open>
  C4 (torn tail). When the file is a well-formed log cut off at a byte offset inside its last
  record, replay applies exactly the records before that one, in order, ignores the cut
  record and returns no error.
\<close>

theorem torn_tail_is_ignored:
  assumes "list_all rec_ok rs" and "rec_ok r"
    and "length (log_bytes rs) \<le> off" and "off < length (log_bytes (rs @ [r]))"
    and "fault_free (wal_f w)"
    and "content (wal_f w) = take off (log_bytes (rs @ [r]))"
  shows "fst (WAL_Replay w apply s) = (None, apply_all apply rs s)"
proof -
  define n where "n = off - length (log_bytes rs)"
  have n: "n < length (rec_bytes r)"
    using assms(3,4) by (simp add: n_def log_bytes_append log_bytes_def)
  have "take off (log_bytes (rs @ [r])) = log_bytes rs @ take n (rec_bytes r)"
    using assms(3) by (simp add: n_def log_bytes_append log_bytes_def)
  with WAL_Replay_fault_free [OF assms(5), of "apply" s] assms(6)
    Replay_loop_torn [OF assms(1,2) n, of "apply" s]
  show ?thesis by simp
qed

theorem torn_tail_is_ignored_witness:
  "list_all rec_ok [(1, [0x61], [0x31]), (1, [0x62], [0x32, 0x32])] \<and> rec_ok (2, [0x61], []) \<and>
   length (log_bytes [(1, [0x61], [0x31]), (1, [0x62], [0x32, 0x32])]) \<le> 33 \<and>
   33 < length (log_bytes ([(1, [0x61], [0x31]), (1, [0x62], [0x32, 0x32])] @ [(2, [0x61], [])])) \<and>
   fst (WAL_Replay
     \<lparr>bufw = NewWriterSize \<lparr>content = take 33 (log_bytes ([(1, [0x61], [0x31]), (1, [0x62], [0x32, 0x32])] @ [(2, [0x61], [])])),
                             faults = [], is_closed = False\<rparr>\<rparr> kv_apply Map.empty) =
     (None, [[0x61] \<mapsto> [0x31], [0x62] \<mapsto> [0x32, 0x32]])"
proof -
  define w where "w = \<lparr>bufw = NewWriterSize \<lparr>content = take 33 (log_bytes ([(1, [0x61], [0x31]), (1, [0x62], [0x32, 0x32])] @ [(2, [0x61], [])])),
                             faults = [], is_closed = False\<rparr>\<rparr>"
  have h1: "list_all rec_ok [(1, [0x61], [0x31]), (1, [0x62], [0x32, 0x32])]" and h2: "rec_ok (2, [0x61], [])"
    by (simp_all add: rec_ok_def in_bounds_def)
  have h3: "length (log_bytes [(1, [0x61], [0x31]), (1, [0x62], [0x32, 0x32])]) \<le> 33"
    by (simp add: log_bytes_def rec_bytes_def)
  have h4: "33 < length (log_bytes ([(1, [0x61], [0x31]), (1, [0x62], [0x32, 0x32])] @ [(2, [0x61], [])]))"
    by (simp add: log_bytes_def rec_bytes_def)
  have h5: "fault_free (wal_f w)"
    by (simp add: w_def wal_f_def NewWriterSize_def fault_free_def)
  have h6: "content (wal_f w) = take 33 (log_bytes ([(1, [0x61], [0x31]), (1, [0x62], [0x32, 0x32])] @ [(2, [0x61], [])]))"
    by (simp add: w_def wal_f_def NewWriterSize_def)
  from torn_tail_is_ignored [OF h1 h2 h3 h4 h5 h6, of kv_apply Map.empty]
  have "fst (WAL_Replay w kv_apply Map.empty) = (None, [[0x61] \<mapsto> [0x31], [0x62] \<mapsto> [0x32, 0x32]])"
    by (simp add: apply_all_def kv_apply_def opSet_def opDel_def)
  with h1 h2 h3 h4 show ?thesis
    unfolding w_def by simp
qed

text \<open>
  C5 (write-ahead ordering). If the append step inside \<open>Set(key, value)\<close> fails, \<open>Set\<close>
  returns that error, and the table is what it was before the call: in particular the entry
  of \<open>key\<close>, if any, is unchanged and \<open>Get\<close> answers as before.
\<close>

theorem set_append_failure_leaves_table:
  assumes "fst (AppendSET key val (wal kv)) = Some e"
  shows "fst (KV_Set key val kv) = Some e \<and> mem (snd (KV_Set key val kv)) = mem kv \<and>
         KV_Get (snd (KV_Set key val kv)) key = KV_Get kv key"
  using assms by (auto simp: KV_Set_def KV_Get_def split: prod.splits option.splits)

theorem set_append_failure_leaves_table_witness:
  "OpenKV \<lparr>content = [], faults = [NoFault, NoFault, NoFault, NoFault, Fault 3], is_closed = False\<rparr> 0 =
     Inr (empty_store [NoFault, Fault 3] 0) \<and>
   fst (KV_Set [0x61] [0x30] (empty_store [NoFault, Fault 3] 0)) = None \<and>
   mem (snd (KV_Set [0x61] [0x30] (empty_store [NoFault, Fault 3] 0))) = [[0x61] \<mapsto> [0x30]] \<and>
   fst (AppendSET [0x61] [0x31] (wal (snd (KV_Set [0x61] [0x30] (empty_store [NoFault, Fault 3] 0))))) = Some EIO \<and>
   fst (KV_Set [0x61] [0x31] (snd (KV_Set [0x61] [0x30] (empty_store [NoFault, Fault 3] 0)))) = Some EIO \<and>
   mem (snd (KV_Set [0x61] [0x31] (snd (KV_Set [0x61] [0x30] (empty_store [NoFault, Fault 3] 0))))) =
     [[0x61] \<mapsto> [0x30]] \<and>
   KV_Get (snd (KV_Set [0x61] [0x31] (snd (KV_Set [0x61] [0x30] (empty_store [NoFault, Fault 3] 0))))) [0x61] =
     ([0x30], True)"
proof -
  define kv1 where "kv1 = \<lparr>mem = [[0x61] \<mapsto> [0x30 :: byte]],
      wal = \<lparr>bufw = \<lparr>buf = [], err = None,
        wr = \<lparr>content = spec_record opSet [0x61] [0x30], faults = [Fault 3], is_closed = False\<rparr>\<rparr>\<rparr>,
      fsyncEvery = 0\<rparr>"
  have k: "KV_Set [0x61] [0x30] (empty_store [NoFault, Fault 3] 0) = (None, kv1)"
    by (simp add: KV_Set_def AppendSET_def appendRecord_small empty_store_def bufSize_def Flush_def
          file_Write_def next_fault_def Let_def kv1_def)
  have h: "fst (AppendSET [0x61] [0x31] (wal kv1)) = Some EIO"
    by (simp add: AppendSET_def appendRecord_small kv1_def bufSize_def Flush_def file_Write_def
          next_fault_def Let_def)
  from set_append_failure_leaves_table [OF h] h OpenKV_empty_faults [of "[NoFault, Fault 3]" False 0]
  show ?thesis
    unfolding k by (simp add: kv1_def KV_Get_def)
qed

text \<open>
  C6 (checksum sensitivity), as the code has it. In a log that starts with valid records,
  when a single bit is flipped in the op byte, the key or the value of the next record,
  replay stops at that record whatever follows it: the records before it are applied, that
  record and everything after it are not, and no error is returned. (A flipped bit in one
  of the two length fields moves the place where the record is taken to end and is not
  covered: the bytes read from the new place may pass every test.)
\<close>

theorem bit_flip_stops_replay:
  assumes "list_all rec_ok rs" and "in_bounds key val"
    and "i = 0 \<or> (9 \<le> i \<and> i < 9 + length key + length val)" and "j < 8"
    and "fault_free (wal_f w)"
    and "content (wal_f w) = log_bytes rs @ flip_at i j (spec_record op key val) @ rest"
  shows "fst (WAL_Replay w apply s) = (None, apply_all apply rs s)"
proof -
  have "Replay_loop \<lparr>pending = flip_at i j (spec_record op key val) @ rest, final = EOF\<rparr> apply
          (apply_all apply rs s) = (None, apply_all apply rs s)"
    by (rule Replay_loop_Stop [OF read_record_flipped [OF assms(2,3,4)]])
  with Replay_loop_log [OF assms(1), of "flip_at i j (spec_record op key val) @ rest" EOF "apply" s]
    WAL_Replay_fault_free [OF assms(5), of "apply" s] assms(6)
  show ?thesis by simp
qed

theorem bit_flip_stops_replay_witness:
  "list_all rec_ok [(1, [0x61], [0x31])] \<and> in_bounds [0x78] [0x79] \<and>
   ((10 :: nat) = 0 \<or> (9 \<le> (10 :: nat) \<and> (10 :: nat) < 9 + length [0x78 :: byte] + length [0x79 :: byte])) \<and>
   (0 :: nat) < 8 \<and>
   fst (WAL_Replay
     \<lparr>bufw = NewWriterSize \<lparr>content = log_bytes [(1, [0x61], [0x31])] @
                                        flip_at 10 0 (spec_record 1 [0x78] [0x79]) @
                                        log_bytes [(2, [0x61], [])],
                             faults = [], is_closed = False\<rparr>\<rparr> kv_apply Map.empty) =
     (None, [[0x61] \<mapsto> [0x31]])"
proof -
  define w where "w = \<lparr>bufw = NewWriterSize \<lparr>content = log_bytes [(1, [0x61], [0x31])] @
                                        flip_at 10 0 (spec_record 1 [0x78] [0x79]) @
                                        log_bytes [(2, [0x61], [])],
                             faults = [], is_closed = False\<rparr>\<rparr>"
  have h1: "list_all rec_ok [(1, [0x61], [0x31])]" and h2: "in_bounds [0x78] [0x79]"
    by (simp_all add: rec_ok_def in_bounds_def)
  have h3: "(10 :: nat) = 0 \<or> (9 \<le> (10 :: nat) \<and> (10 :: nat) < 9 + length [0x78 :: byte] + length [0x79 :: byte])"
    and h4: "(0 :: nat) < 8"
    by simp_all
  have h5: "fault_free (wal_f w)"
    by (simp add: w_def wal_f_def NewWriterSize_def fault_free_def)
  have h6: "content (wal_f w) = log_bytes [(1, [0x61], [0x31])] @
              flip_at 10 0 (spec_record 1 [0x78] [0x79]) @ log_bytes [(2, [0x61], [])]"
    by (simp add: w_def wal_f_def NewWriterSize_def)
  from bit_flip_stops_replay [OF h1 h2 h3 h4 h5 h6, of kv_apply Map.empty]
  have "fst (WAL_Replay w kv_apply Map.empty) = (None, [[0x61] \<mapsto> [0x31]])"
    by (simp add: apply_all_def kv_apply_def opSet_def)
  with h1 h2 show ?thesis
    unfolding w_def by simp
qed

text \<open>
  A flipped bit in a length field can go unnoticed. The log is the one valid record
  \<open>SET\<close> with the five-byte key \<open>61 c5 46 86 21\<close> and no value. Flipping bit 2 of the
  low byte of its key length turns 5 into 1; the next four bytes, read as the checksum, are
  the CRC32 of the shortened record, so replay applies \<open>SET\<close> of key \<open>61\<close>, and then meets
  the four bytes left over and stops with no error.
\<close>

theorem length_bit_flip_counterexample:
  "rec_ok (1, [0x61, 0xC5, 0x46, 0x86, 0x21], []) \<and>
   rec_bytes (1, [0x61, 0xC5, 0x46, 0x86, 0x21], []) =
     [1, 5, 0, 0, 0, 0, 0, 0, 0, 0x61, 0xC5, 0x46, 0x86, 0x21, 0x8A, 0xB5, 0xFD, 0xE1] \<and>
   flip_at 1 2 (rec_bytes (1, [0x61, 0xC5, 0x46, 0x86, 0x21], [])) =
     [1, 1, 0, 0, 0, 0, 0, 0, 0, 0x61, 0xC5, 0x46, 0x86, 0x21, 0x8A, 0xB5, 0xFD, 0xE1] \<and>
   fst (WAL_Replay
     \<lparr>bufw = NewWriterSize \<lparr>content = flip_at 1 2 (rec_bytes (1, [0x61, 0xC5, 0x46, 0x86, 0x21], [])),
                             faults = [], is_closed = False\<rparr>\<rparr> kv_apply Map.empty) =
     (None, [[0x61] \<mapsto> []]) \<and>
   [[0x61 :: byte] \<mapsto> ([] :: byte list)] \<noteq> Map.empty"
proof -
  have c1: "crc32_ChecksumIEEE [1, 5, 0, 0, 0, 0, 0, 0, 0, 0x61, 0xC5, 0x46, 0x86, 0x21] = 0xE1FDB58A"
    by (simp add: crc32_ChecksumIEEE_def crc32_Update_def crc_byte_serial crc_step_def funpow8)
  have c2: "crc32_ChecksumIEEE [1, 1, 0, 0, 0, 0, 0, 0, 0, 0x61] = 0x218646C5"
    by (simp add: crc32_ChecksumIEEE_def crc32_Update_def crc_byte_serial crc_step_def funpow8)
  have b1: "rec_bytes (1, [0x61, 0xC5, 0x46, 0x86, 0x21], []) =
     [1, 5, 0, 0, 0, 0, 0, 0, 0, 0x61, 0xC5, 0x46, 0x86, 0x21, 0x8A, 0xB5, 0xFD, 0xE1]"
    by (simp add: rec_bytes_def spec_record_def le32_def c1 Let_def)
  have b2: "spec_record 1 [0x61] [] = [1, 1, 0, 0, 0, 0, 0, 0, 0, 0x61, 0xC5, 0x46, 0x86, 0x21]"
    by (simp add: spec_record_def le32_def c2 Let_def)
  have fl: "flip_at 1 2 (rec_bytes (1, [0x61, 0xC5, 0x46, 0x86, 0x21], [])) =
     [1, 1, 0, 0, 0, 0, 0, 0, 0, 0x61, 0xC5, 0x46, 0x86, 0x21, 0x8A, 0xB5, 0xFD, 0xE1]"
    unfolding b1 by (simp add: flip_at_def)
  define w where "w = \<lparr>bufw = NewWriterSize
      \<lparr>content = flip_at 1 2 (rec_bytes (1, [0x61, 0xC5, 0x46, 0x86, 0x21], [])), faults = [], is_closed = False\<rparr>\<rparr>"
  have ff: "fault_free (wal_f w)"
    by (simp add: w_def wal_f_def NewWriterSize_def fault_free_def)
  have ct: "content (wal_f w) = log_bytes [(1, [0x61], [])] @ [0x8A, 0xB5, 0xFD, 0xE1]"
  proof -
    have "log_bytes [(1, [0x61], [])] = spec_record 1 [0x61] []"
      by (simp add: log_bytes_def rec_bytes_def)
    then show ?thesis
      unfolding w_def fl by (simp add: wal_f_def NewWriterSize_def b2)
  qed
  have st: "read_record \<lparr>pending = [0x8A, 0xB5, 0xFD, 0xE1], final = EOF\<rparr> =
              (Stop None, \<lparr>pending = [], final = EOF\<rparr>)"
    by (simp add: read_record_def ReadFull_def)
  have "Replay_loop \<lparr>pending = log_bytes [(1, [0x61], [])] @ [0x8A, 0xB5, 0xFD, 0xE1], final = EOF\<rparr>
          kv_apply Map.empty = (None, [[0x61] \<mapsto> []])"
    using Replay_loop_log [of "[(1, [0x61], [])]" "[0x8A, 0xB5, 0xFD, 0xE1]" EOF kv_apply Map.empty]
      Replay_loop_Stop [OF st, of kv_apply]
    by (simp add: rec_ok_def in_bounds_def apply_all_def kv_apply_def opSet_def)
  with WAL_Replay_fault_free [OF ff, of kv_apply Map.empty] ct
  have "fst (WAL_Replay w kv_apply Map.empty) = (None, [[0x61] \<mapsto> []])"
    by simp
  moreover have "rec_ok (1, [0x61, 0xC5, 0x46, 0x86, 0x21], [])"
    by (simp add: rec_ok_def in_bounds_def)
  moreover have "[[0x61 :: byte] \<mapsto> ([] :: byte list)] \<noteq> Map.empty"
    by (metis map_upd_nonempty)
  ultimately show ?thesis
    using b1 fl unfolding w_def by blast
qed

text \<open>
  C7 (length limits). When the nine header bytes have been read and the header declares a key
  length of 0, a key length above 2^20 or a value length above 64*2^20, the loop body returns
  with no error and with the reader where the header read left it (no further byte is
  read), and replay as a whole returns no error, with the state it had reached.
\<close>

theorem bad_length_stops_replay:
  assumes "ReadFull br 9 = (Inr header, br1)"
    and "Uint32 (take 4 (drop 1 header)) = 0 \<or>
         Uint32 (take 4 (drop 1 header)) > 2 ^ 20 \<or>
         Uint32 (take 4 (drop 5 header)) > 64 * 2 ^ 20"
  shows "read_record br = (Stop None, br1) \<and> pending br1 = drop 9 (pending br) \<and>
         Replay_loop br apply s = (None, s)"
proof -
  have r: "read_record br = (Stop None, br1)"
    using assms by (auto simp: read_record_def Let_def maxKey_def maxVal_def)
  moreover have "pending br1 = drop 9 (pending br)"
    using assms(1) by (auto simp: ReadFull_def split: if_splits)
  ultimately show ?thesis
    by (simp add: Replay_loop_Stop)
qed

theorem bad_length_stops_replay_witness:
  "ReadFull \<lparr>pending = [1, 0, 0, 0, 0, 1, 0, 0, 0, 0x79, 0, 0, 0, 0], final = EOF\<rparr> 9 =
     (Inr [1, 0, 0, 0, 0, 1, 0, 0, 0], \<lparr>pending = [0x79, 0, 0, 0, 0], final = EOF\<rparr>) \<and>
   Uint32 (take 4 (drop 1 [1, 0, 0, 0, 0, 1, 0, 0, 0])) = 0 \<and>
   read_record \<lparr>pending = [1, 0, 0, 0, 0, 1, 0, 0, 0, 0x79, 0, 0, 0, 0], final = EOF\<rparr> =
     (Stop None, \<lparr>pending = [0x79, 0, 0, 0, 0], final = EOF\<rparr>) \<and>
   Replay_loop \<lparr>pending = [1, 0, 0, 0, 0, 1, 0, 0, 0, 0x79, 0, 0, 0, 0], final = EOF\<rparr> kv_apply Map.empty =
     (None, Map.empty)"
proof -
  have h1: "ReadFull \<lparr>pending = [1, 0, 0, 0, 0, 1, 0, 0, 0, 0x79, 0, 0, 0, 0], final = EOF\<rparr> 9 =
     (Inr [1, 0, 0, 0, 0, 1, 0, 0, 0], \<lparr>pending = [0x79, 0, 0, 0, 0], final = EOF\<rparr>)"
    by (simp add: ReadFull_def)
  have h2: "Uint32 (take 4 (drop 1 [1, 0, 0, 0, 0, 1, 0, 0, 0])) = 0"
    by (simp add: Uint32_def)
  from bad_length_stops_replay [OF h1 disjI1, OF h2, of kv_apply Map.empty] h1 h2
  show ?thesis by simp
qed

text \<open>
  C8 (record layout). What a successful \<open>appendRecord\<close> adds to the log is exactly: the op
  byte, the key length and the value length as four little-endian bytes each, the key, the
  value, and four little-endian bytes of the IEEE CRC32 of all that came before, in that
  order. \<open>AppendSET\<close> passes op byte 1; \<open>AppendDEL\<close> passes op byte 2 and an empty value,
  so its value length is 0. (A length is stored as Go's \<open>uint32\<close> conversion gives it.)
\<close>

theorem append_record_layout:
  assumes "fst (appendRecord op key val w) = None"
    and "buf (bufw w) = []"
  shows "content (wal_f (snd (appendRecord op key val w))) =
           content (wal_f w) @
           [op] @ le32 (length key) @ le32 (length val) @ key @ val @
           le32 (unat (crc32_ChecksumIEEE ([op] @ le32 (length key) @ le32 (length val) @ key @ val))) \<and>
         AppendSET key val w = appendRecord 1 key val w \<and>
         AppendDEL key w = appendRecord 2 key [] w"
proof -
  have "appendRecord op key val w = (None, snd (appendRecord op key val w))"
    using assms(1) by (simp add: prod_eq_iff)
  from appendRecord_None [OF this assms(2)]
  have "content (wal_f (snd (appendRecord op key val w))) =
           content (wal_f w) @
           [op] @ le32 (length key) @ le32 (length val) @ key @ val @
           le32 (unat (crc32_ChecksumIEEE ([op] @ le32 (length key) @ le32 (length val) @ key @ val)))"
    by (simp add: spec_record_def Let_def)
  then show ?thesis
    by (simp add: AppendSET_def opSet_def AppendDEL_def opDel_def)
qed

theorem append_record_layout_witness:
  "fst (appendRecord 1 [0x78] [0x79] (wal (empty_store [] 0))) = None \<and>
   buf (bufw (wal (empty_store [] 0))) = [] \<and>
   content (wal_f (snd (appendRecord 1 [0x78] [0x79] (wal (empty_store [] 0))))) =
     [1, 1, 0, 0, 0, 1, 0, 0, 0, 0x78, 0x79, 0xD1, 0xEC, 0xA8, 0x40]"
proof -
  have h1: "fst (appendRecord 1 [0x78] [0x79] (wal (empty_store [] 0))) = None"
    by (simp add: appendRecord_small empty_store_def bufSize_def Flush_def file_Write_def
          next_fault_def Let_def)
  have h2: "buf (bufw (wal (empty_store [] 0))) = []"
    by (simp add: empty_store_def)
  have c: "crc32_ChecksumIEEE [1, 1, 0, 0, 0, 1, 0, 0, 0, 0x78, 0x79] = 0x40A8ECD1"
    by (simp add: crc32_ChecksumIEEE_def crc32_Update_def crc_byte_serial crc_step_def funpow8)
  from append_record_layout [OF h1 h2] h1 h2 show ?thesis
    by (simp add: le32_def c empty_store_def wal_f_def)
qed

text \<open>
  C9 (empty key). On a store in working order whose log holds valid records, \<open>Set\<close> with an
  empty key meets no check: without an I/O failure it returns no error, the record it appends
  has key length 0 in its header, and the value is in the table. Replay stops at that
  record, so whatever calls follow, closing and reopening the store gives the table of the
  records before it: neither that record nor a later one is recovered.
\<close>

theorem empty_key_accepted_then_lost:
  assumes "fault_free (kv_file kv)" and "\<not> is_closed (kv_file kv)"
    and "buf (bufw (wal kv)) = []" and "err (bufw (wal kv)) = None"
    and "list_all rec_ok rs" and "content (kv_file kv) = log_bytes rs"
  shows "fst (KV_Set [] val kv) = None \<and>
         mem (snd (KV_Set [] val kv)) = (mem kv)([] \<mapsto> val) \<and>
         content (kv_file (snd (KV_Set [] val kv))) = log_bytes rs @ spec_record 1 [] val \<and>
         take 5 (spec_record 1 [] val) = [1, 0, 0, 0, 0] \<and>
         fst (do_calls cs (snd (KV_Set [] val kv))) = None \<and>
         (\<exists>kv'. reopen (snd (do_calls cs (snd (KV_Set [] val kv)))) n = Inr kv' \<and>
                mem kv' = apply_all kv_apply rs Map.empty)"
proof -
  define kv1 where "kv1 = snd (KV_Set [] val kv)"
  define kv2 where "kv2 = snd (do_calls cs kv1)"
  have s: "KV_Set [] val kv = (None, kv1)" and f1: "fault_free (kv_file kv1)"
    using KV_Set_fault_free [OF assms(1,2,4), of "[]" val] by (simp_all add: kv1_def prod_eq_iff)
  note r1 = KV_Set_None [OF s assms(3)]
  have c1: "content (kv_file kv1) = log_bytes rs @ spec_record 1 [] val"
    using r1 assms(6) by (simp add: opSet_def)
  have d: "do_calls cs kv1 = (None, kv2)" and f2: "fault_free (kv_file kv2)"
    using do_calls_fault_free [OF f1, of cs] r1 assms(2) by (simp_all add: kv2_def prod_eq_iff)
  note r2 = do_calls_None [OF d]
  have e2: "err (bufw (wal kv2)) = None"
    using r2 r1 by simp
  have c2: "content (kv_file kv2) = log_bytes rs @ spec_record 1 [] val @ log_bytes (map call_rec cs)"
    using r2 r1 c1 by simp
  have "Replay_loop \<lparr>pending = content (kv_file kv2), final = EOF\<rparr> kv_apply Map.empty =
          (None, apply_all kv_apply rs Map.empty)"
    unfolding c2 by (rule Replay_loop_empty_key [OF assms(5)])
  from reopen_fault_free [OF f2 _ e2 this, of n] r2 r1
  have "\<exists>kv'. reopen kv2 n = Inr kv' \<and> mem kv' = apply_all kv_apply rs Map.empty" by simp
  moreover have "take 5 (spec_record 1 [] val) = [1, 0, 0, 0, 0]"
    by (simp add: spec_record_def le32_def Let_def)
  moreover have "fst (KV_Set [] val kv) = None" "fst (do_calls cs kv1) = None"
    using s d by simp_all
  ultimately show ?thesis
    unfolding kv1_def [symmetric] kv2_def [symmetric] using r1 c1 by simp
qed

theorem empty_key_accepted_then_lost_witness:
  "fault_free (kv_file (empty_store [] 0)) \<and> \<not> is_closed (kv_file (empty_store [] 0)) \<and>
   buf (bufw (wal (empty_store [] 0))) = [] \<and> err (bufw (wal (empty_store [] 0))) = None \<and>
   list_all rec_ok [] \<and> content (kv_file (empty_store [] 0)) = log_bytes [] \<and>
   fst (KV_Set [] [0x76] (empty_store [] 0)) = None \<and>
   mem (snd (KV_Set [] [0x76] (empty_store [] 0))) = [[] \<mapsto> [0x76]] \<and>
   fst (do_calls [SetCall [0x61] [0x31]] (snd (KV_Set [] [0x76] (empty_store [] 0)))) = None \<and>
   map_sum id mem (reopen (snd (do_calls [SetCall [0x61] [0x31]] (snd (KV_Set [] [0x76] (empty_store [] 0))))) 0) =
     Inr Map.empty"
proof -
  have h: "fault_free (kv_file (empty_store [] 0))" "\<not> is_closed (kv_file (empty_store [] 0))"
    "buf (bufw (wal (empty_store [] 0))) = []" "err (bufw (wal (empty_store [] 0))) = None"
    "list_all rec_ok []" "content (kv_file (empty_store [] 0)) = log_bytes []"
    by (simp_all add: empty_store_def kv_file_def fault_free_def log_bytes_def)
  from empty_key_accepted_then_lost [OF h, of "[0x76]" "[SetCall [0x61] [0x31]]" 0] h
  show ?thesis
    by (auto simp: apply_all_def empty_store_def)
qed

text \<open>
  C10 (unknown op byte). A complete, checksum-valid record whose op byte is neither 1 nor 2
  does not stop replay and is no error: replay hands it to the apply function like every
  other record of the log, the apply function of the store leaves the table as it is, and
  the records after it are still applied, so the store opens with the table of the other
  records.
\<close>

theorem unknown_op_is_skipped:
  assumes "list_all rec_ok rs1" and "in_bounds key val" and "list_all rec_ok rs2"
    and "op \<noteq> 1" and "op \<noteq> 2"
    and "fault_free F"
    and "content F = log_bytes (rs1 @ [(op, key, val)] @ rs2)"
    and "wal_f w = F"
  shows "fst (WAL_Replay w apply s) = (None, apply_all apply (rs1 @ [(op, key, val)] @ rs2) s) \<and>
         kv_apply op key val m = m \<and>
         (\<exists>kv. OpenKV F n = Inr kv \<and> mem kv = apply_all kv_apply (rs1 @ rs2) Map.empty)"
proof -
  have ok: "list_all rec_ok (rs1 @ [(op, key, val)] @ rs2)"
    using assms(1,2,3) by (simp add: rec_ok_def)
  have ops: "op \<noteq> opSet" "op \<noteq> opDel"
    using assms(4,5) by (simp_all add: opSet_def opDel_def)
  have "fst (WAL_Replay w apply s) = (None, apply_all apply (rs1 @ [(op, key, val)] @ rs2) s)"
    using WAL_Replay_fault_free [of w "apply" s] assms(6,7,8) Replay_loop_whole_log [OF ok]
    by simp
  moreover have "kv_apply op key val m = m"
    using ops by (simp add: kv_apply_def)
  moreover have "\<exists>kv. OpenKV F n = Inr kv \<and> mem kv = apply_all kv_apply (rs1 @ rs2) Map.empty"
    using OpenKV_fault_free [OF assms(6), of "apply_all kv_apply (rs1 @ rs2) Map.empty" n]
      Replay_loop_whole_log [OF ok, of kv_apply Map.empty] apply_all_skip [OF ops] assms(7)
    by auto
  ultimately show ?thesis by simp
qed

theorem unknown_op_is_skipped_witness:
  "list_all rec_ok [(1, [0x61], [0x31])] \<and> in_bounds [0x78] [] \<and> list_all rec_ok [(1, [0x62], [0x32])] \<and>
   (7 :: byte) \<noteq> 1 \<and> (7 :: byte) \<noteq> 2 \<and>
   fault_free \<lparr>content = log_bytes ([(1, [0x61], [0x31])] @ [(7, [0x78], [])] @ [(1, [0x62], [0x32])]),
               faults = [], is_closed = True\<rparr> \<and>
   (\<exists>kv. OpenKV \<lparr>content = log_bytes ([(1, [0x61], [0x31])] @ [(7, [0x78], [])] @ [(1, [0x62], [0x32])]),
                  faults = [], is_closed = True\<rparr> 0 = Inr kv \<and>
         mem kv = [[0x61] \<mapsto> [0x31], [0x62] \<mapsto> [0x32]])"
proof -
  have h1: "list_all rec_ok [(1, [0x61], [0x31])]" and h2: "in_bounds [0x78] []"
    and h3: "list_all rec_ok [(1, [0x62], [0x32])]"
    by (simp_all add: rec_ok_def in_bounds_def)
  have h4: "(7 :: byte) \<noteq> 1" and h5: "(7 :: byte) \<noteq> 2"
    by simp_all
  define F where "F = \<lparr>content = log_bytes ([(1, [0x61], [0x31])] @ [(7, [0x78], [])] @ [(1, [0x62], [0x32])]),
               faults = [], is_closed = True\<rparr>"
  have h6: "fault_free F"
    by (simp add: fault_free_def F_def)
  have h7: "content F = log_bytes ([(1, [0x61], [0x31])] @ [(7, [0x78], [])] @ [(1, [0x62], [0x32])])"
    by (simp add: F_def)
  have h8: "wal_f \<lparr>bufw = NewWriterSize F\<rparr> = F"
    by (simp add: wal_f_def NewWriterSize_def)
  from unknown_op_is_skipped [OF h1 h2 h3 h4 h5 h6 h7 h8, of kv_apply Map.empty Map.empty 0]
  have "\<exists>kv. OpenKV F 0 = Inr kv \<and> mem kv = [[0x61] \<mapsto> [0x31], [0x62] \<mapsto> [0x32]]"
    by (simp add: apply_all_def kv_apply_def opSet_def opDel_def)
  with h1 h2 h3 h4 h5 h6 show ?thesis
    unfolding F_def by simp
qed

end
